theory Spec2Isabelle
  imports Main "HOL-Library.Sublist" "HOL-Library.Multiset"
begin

section \<open>DevSync: a shallow embedding of \<^verbatim>\<open>devsync.py\<close>\<close>

subsection \<open>Text\<close>

text \<open>
  A Python \<^verbatim>\<open>str\<close> is a sequence of Unicode code points: \<^verbatim>\<open>len\<close>, slicing and
  \<^verbatim>\<open>re\<close> all count code points, and the report contains characters outside the
  8-bit range. Text is therefore a list of code points; \<open>ustr\<close> embeds an ASCII literal.
\<close>

type_synonym ustring = "nat list"

definition ustr :: "string \<Rightarrow> ustring" where
  "ustr s = map of_char s"

text \<open>
  The characters for which \<^verbatim>\<open>str.isspace\<close> holds; \<^verbatim>\<open>str.split()\<close> and the
  pattern \<^verbatim>\<open>\s\<close> both use this set.
\<close>

definition is_space :: "nat \<Rightarrow> bool" where
  "is_space c \<longleftrightarrow>
     (9 \<le> c \<and> c \<le> 13) \<or> (28 \<le> c \<and> c \<le> 32) \<or> c = 133 \<or> c = 160 \<or> c = 5760 \<or>
     (8192 \<le> c \<and> c \<le> 8202) \<or> c = 8232 \<or> c = 8233 \<or> c = 8239 \<or> c = 8287 \<or> c = 12288"

text \<open>
  \<^verbatim>\<open>content.split()\<close>: the maximal runs of non-whitespace characters, in order. \<open>cur\<close> is
  the run being read, reversed.
\<close>

fun split_from :: "ustring \<Rightarrow> ustring \<Rightarrow> ustring list" where
  "split_from cur [] = (if cur = [] then [] else [rev cur])"
| "split_from cur (c # cs) =
     (if is_space c then (if cur = [] then split_from [] cs else rev cur # split_from [] cs)
      else split_from (c # cur) cs)"

definition split :: "ustring \<Rightarrow> ustring list" where
  "split content = split_from [] content"

subsection \<open>Errors and records\<close>

datatype error = IOError | ParseError | SummarizationServiceError

text \<open>The dictionary built by both extractors, with its four fixed keys (the key
  \<^verbatim>\<open>"file"\<close> and the key \<^verbatim>\<open>"functions"\<close> are the fields \<open>file'\<close> and \<open>functions'\<close>: both words are
  reserved in Isabelle).\<close>

record file_record =
  file' :: ustring
  classes :: "ustring list"
  functions' :: "ustring list"
  summary :: ustring

subsection \<open>The summarizer adapter\<close>

text \<open>
  The call \<^verbatim>\<open>summarizer(content, max_length=100, min_length=30, do_sample=False)\<close> goes
  to a pretrained model outside the repository. The model is a parameter: a function
  from the request to the summary text, or \<open>None\<close> when the call raises.
\<close>

record request =
  text_in :: ustring
  max_length :: nat
  min_length :: nat
  do_sample :: bool

type_synonym summarizer = "request \<Rightarrow> ustring option"

definition sentinel :: ustring where
  "sentinel = ustr ''Code is too short for meaningful summarization.''"

text \<open>
  \<open>generate_ai_summary\<close> returns the summary (or the error of the service) together with
  the list of requests it sent to the service, so that "no call" is the empty list.
\<close>

definition generate_ai_summary :: "summarizer \<Rightarrow> ustring \<Rightarrow> (error + ustring) \<times> request list" where
  "generate_ai_summary summarizer content =
     (if length (split content) < 50 then (Inr sentinel, [])
      else
        let content' = take 1024 content;
            req = \<lparr>text_in = content', max_length = 100, min_length = 30, do_sample = False\<rparr>
        in (case summarizer req of
              None \<Rightarrow> (Inl SummarizationServiceError, [req])
            | Some s \<Rightarrow> (Inr s, [req])))"

subsection \<open>Search\<close>

text \<open>
  The loop of \<open>search_codebase\<close>, with \<open>results\<close> as the accumulator. Python's
  \<^verbatim>\<open>in\<close> on a list of strings is membership under string equality.
\<close>

fun search_loop :: "file_record list \<Rightarrow> ustring \<Rightarrow> ustring list \<Rightarrow> ustring list" where
  "search_loop [] search_term results = results"
| "search_loop (item # rest) search_term results =
     (if search_term \<in> set (classes item) \<or> search_term \<in> set (functions' item)
      then search_loop rest search_term (results @ [file' item])
      else search_loop rest search_term results)"

definition search_codebase :: "file_record list \<Rightarrow> ustring \<Rightarrow> ustring list" where
  "search_codebase code_info search_term = search_loop code_info search_term []"

text \<open>A record matches a term when the term equals one of its class or function names.\<close>

definition matches :: "ustring \<Rightarrow> file_record \<Rightarrow> bool" where
  "matches t r \<longleftrightarrow> t \<in> set (classes r) \<or> t \<in> set (functions' r)"

subsection \<open>Regular expressions\<close>

text \<open>
  \<^verbatim>\<open>\w\<close> on a \<^verbatim>\<open>str\<close> pattern is the underscore or a character for which
  \<^verbatim>\<open>str.isalnum\<close> holds. Below U+0080 these are the ASCII letters and digits; above,
  the Unicode character database decides, which is not part of the repository and is the
  parameter \<open>alnum\<close>.
\<close>

definition is_word :: "(nat \<Rightarrow> bool) \<Rightarrow> nat \<Rightarrow> bool" where
  "is_word alnum c \<longleftrightarrow>
     (if c < 128
      then (48 \<le> c \<and> c \<le> 57) \<or> (65 \<le> c \<and> c \<le> 90) \<or> (97 \<le> c \<and> c \<le> 122) \<or> c = 95
      else alnum c)"

text \<open>
  The fragment of \<^verbatim>\<open>re\<close> syntax the two patterns use: \<^verbatim>\<open>\b\<close>, literal text, one
  character of a class (\<^verbatim>\<open>\w\<close>, \<^verbatim>\<open>\s\<close>, a set of ranges), a greedy repetition of a
  class with a least count (\<^verbatim>\<open>*\<close> is 0, \<^verbatim>\<open>+\<close> is 1), sequence, alternation, and
  the capturing group.
\<close>

datatype cclass = CWord | CSpace | CRanges "(nat \<times> nat) list"

fun in_class :: "(nat \<Rightarrow> bool) \<Rightarrow> cclass \<Rightarrow> nat \<Rightarrow> bool" where
  "in_class alnum CWord c = is_word alnum c"
| "in_class alnum CSpace c = is_space c"
| "in_class alnum (CRanges rs) c = list_ex (\<lambda>(lo, hi). lo \<le> c \<and> c \<le> hi) rs"

datatype rx = Bnd | Lit ustring | Cls cclass | Rep cclass nat | Seq rx rx | Alt rx rx | Grp rx

text \<open>
  A matcher state: the character before the current position (for \<^verbatim>\<open>\b\<close>), the text
  from the current position on, and the text of group 1 if it has been captured.
\<close>

type_synonym mstate = "nat option \<times> ustring \<times> ustring option"

definition last_of :: "nat option \<Rightarrow> ustring \<Rightarrow> nat option" where
  "last_of p l = (if l = [] then p else Some (last l))"

definition at_boundary :: "(nat \<Rightarrow> bool) \<Rightarrow> nat option \<Rightarrow> ustring \<Rightarrow> bool" where
  "at_boundary alnum p xs \<longleftrightarrow>
     (case p of None \<Rightarrow> False | Some c \<Rightarrow> is_word alnum c)
       \<noteq> (case xs of [] \<Rightarrow> False | c # _ \<Rightarrow> is_word alnum c)"

text \<open>
  \<open>rmatch\<close> lists every way the expression matches at the current position, in the
  order in which a backtracking matcher tries them (the first alternative first, the
  longest repetition first); its head is the match \<^verbatim>\<open>re\<close> reports.
\<close>

fun rmatch :: "(nat \<Rightarrow> bool) \<Rightarrow> rx \<Rightarrow> mstate \<Rightarrow> mstate list" where
  "rmatch alnum Bnd (p, xs, g) = (if at_boundary alnum p xs then [(p, xs, g)] else [])"
| "rmatch alnum (Lit l) (p, xs, g) =
     (if take (length l) xs = l then [(last_of p l, drop (length l) xs, g)] else [])"
| "rmatch alnum (Cls c) (p, xs, g) =
     (case xs of [] \<Rightarrow> [] | x # xs' \<Rightarrow> if in_class alnum c x then [(Some x, xs', g)] else [])"
| "rmatch alnum (Rep c n) (p, xs, g) =
     map (\<lambda>k. (last_of p (take k xs), drop k xs, g))
       (rev [n ..< Suc (length (takeWhile (in_class alnum c) xs))])"
| "rmatch alnum (Seq a b) st = concat (map (rmatch alnum b) (rmatch alnum a st))"
| "rmatch alnum (Alt a b) st = rmatch alnum a st @ rmatch alnum b st"
| "rmatch alnum (Grp a) (p, xs, g) =
     map (\<lambda>(p', xs', g'). (p', xs', Some (take (length xs - length xs') xs)))
       (rmatch alnum a (p, xs, g))"

text \<open>
  The scan behind \<^verbatim>\<open>re.findall\<close>: try the pattern at the current position; on a match
  record (start, end, group 1) and go on from its end, otherwise move one character on.
  After an empty match the scan moves one character on; neither pattern of this program
  can match the empty text.
\<close>

function scan ::
  "(nat \<Rightarrow> bool) \<Rightarrow> rx \<Rightarrow> nat \<Rightarrow> nat option \<Rightarrow> ustring \<Rightarrow> (nat \<times> nat \<times> ustring) list" where
  "scan alnum r pos p xs =
     (case rmatch alnum r (p, xs, None) of
        [] \<Rightarrow> (case xs of [] \<Rightarrow> [] | c # cs \<Rightarrow> scan alnum r (Suc pos) (Some c) cs)
      | (p', xs', g) # _ \<Rightarrow>
          (pos, pos + (length xs - length xs'), (case g of None \<Rightarrow> [] | Some s \<Rightarrow> s)) #
          (if length xs' < length xs then scan alnum r (pos + (length xs - length xs')) p' xs'
           else (case xs of [] \<Rightarrow> [] | c # cs \<Rightarrow> scan alnum r (Suc pos) (Some c) cs)))"
  by pat_completeness auto
termination
  by (relation "measure (\<lambda>(alnum, r, pos, p, xs). length xs)") auto

declare scan.simps [simp del]

text \<open>With one group in the pattern, \<^verbatim>\<open>re.findall\<close> returns the group of each match.\<close>

definition findall :: "(nat \<Rightarrow> bool) \<Rightarrow> rx \<Rightarrow> ustring \<Rightarrow> ustring list" where
  "findall alnum r content = map (\<lambda>(s, e, g). g) (scan alnum r 0 None content)"

text \<open>\<^verbatim>\<open>r"\bclass\s+(\w+)"\<close>\<close>

definition class_pattern :: rx where
  "class_pattern = Seq Bnd (Seq (Lit (ustr ''class'')) (Seq (Rep CSpace 1) (Grp (Rep CWord 1))))"

text \<open>\<^verbatim>\<open>r"\b(?:function\s+|[a-zA-Z_]\w*\s*\()\s*(\w+)\s*\("\<close>\<close>

definition function_pattern :: rx where
  "function_pattern =
     Seq Bnd
      (Seq (Alt (Seq (Lit (ustr ''function'')) (Rep CSpace 1))
                (Seq (Cls (CRanges [(97, 122), (65, 90), (95, 95)]))
                  (Seq (Rep CWord 0) (Seq (Rep CSpace 0) (Lit (ustr ''(''))))))
        (Seq (Rep CSpace 0) (Seq (Grp (Rep CWord 1)) (Seq (Rep CSpace 0) (Lit (ustr ''(''))))))"

subsection \<open>Syntax trees\<close>

text \<open>
  \<^verbatim>\<open>ast.parse\<close> is the Python library's parser. Of its tree the program reads the class of
  each node, the \<^verbatim>\<open>name\<close> of the definition nodes, and the children in the order of
  \<^verbatim>\<open>ast.iter_child_nodes\<close>. \<^verbatim>\<open>ast.AsyncFunctionDef\<close> is not a subclass of
  \<^verbatim>\<open>ast.FunctionDef\<close>.
\<close>

datatype node_kind = ClassDef ustring | FunctionDef ustring | AsyncFunctionDef ustring | Other

datatype node = Node node_kind "node list"

text \<open>
  \<^verbatim>\<open>ast.walk\<close>: a queue \<open>todo\<close>, from which the first node is taken, its children are
  appended at the end, and the node is yielded.
\<close>

function walk_queue :: "node list \<Rightarrow> node list" where
  "walk_queue [] = []"
| "walk_queue (Node k cs # todo) = Node k cs # walk_queue (todo @ cs)"
  by pat_completeness auto
termination
  by (relation "measure (\<lambda>todo. sum_list (map size todo))") (auto simp: size_list_conv_sum_list)

definition walk :: "node \<Rightarrow> node list" where
  "walk tree = walk_queue [tree]"

fun class_name :: "node \<Rightarrow> ustring option" where
  "class_name (Node (ClassDef name) cs) = Some name"
| "class_name (Node k cs) = None"

fun function_name :: "node \<Rightarrow> ustring option" where
  "function_name (Node (FunctionDef name) cs) = Some name"
| "function_name (Node k cs) = None"

subsection \<open>The environment\<close>

text \<open>
  What the program reads from outside: the character database, the content of each file
  (\<open>None\<close> when \<^verbatim>\<open>open\<close> or \<^verbatim>\<open>read\<close> raises), the parser (\<open>None\<close> on a
  \<^verbatim>\<open>SyntaxError\<close>), the summarization model, and the directory tree at a path.

  A directory is the list of its file names and the list of its subdirectory entries, both
  in the order of \<^verbatim>\<open>os.scandir\<close>. A subdirectory entry that \<^verbatim>\<open>os.walk\<close> does not enter
  (a symbolic link, an unreadable directory) carries \<open>None\<close>.
\<close>

datatype dir = Dir "ustring list" "(ustring \<times> dir option) list"

record env =
  env_alnum :: "nat \<Rightarrow> bool"
  env_read :: "ustring \<Rightarrow> ustring option"
  env_parse :: "ustring \<Rightarrow> node option"
  env_summarizer :: summarizer
  env_dir :: "ustring \<Rightarrow> dir option"

subsection \<open>File discovery\<close>

text \<open>
  \<^verbatim>\<open>os.path.join\<close> of two components on a POSIX system: a second component that starts
  with a slash replaces the first; otherwise a slash is put between them unless the first
  is empty or ends with one.
\<close>

definition join :: "ustring \<Rightarrow> ustring \<Rightarrow> ustring" where
  "join a b =
     (if take 1 b = [47] then b
      else if a = [] \<or> last a = 47 then a @ b
      else a @ [47] @ b)"

text \<open>
  \<^verbatim>\<open>os.walk\<close>, top down: the triple (path, subdirectory names, file names) of a
  directory, then the walks of its subdirectories in order, each under the joined path.
\<close>

fun os_walk :: "ustring \<Rightarrow> dir \<Rightarrow> (ustring \<times> ustring list \<times> ustring list) list" where
  "os_walk root (Dir files subs) =
     (root, map fst subs, files) #
     concat (map (\<lambda>(name, d). case d of None \<Rightarrow> [] | Some d' \<Rightarrow> os_walk (join root name) d') subs)"

text \<open>\<^verbatim>\<open>s.endswith(ext)\<close>\<close>

definition endswith :: "ustring \<Rightarrow> ustring \<Rightarrow> bool" where
  "endswith s ext \<longleftrightarrow> length ext \<le> length s \<and> drop (length s - length ext) s = ext"

definition default_extensions :: "ustring list" where
  "default_extensions = [ustr ''.py'', ustr ''.js'', ustr ''.cpp'', ustr ''.java'']"

text \<open>
  The two nested loops of \<open>get_code_files\<close> over the triples of the walk. A directory
  that cannot be listed makes \<^verbatim>\<open>os.walk\<close> yield nothing, so the result is empty.
\<close>

fun code_files_loop :: "ustring list \<Rightarrow> (ustring \<times> ustring list \<times> ustring list) list \<Rightarrow> ustring list" where
  "code_files_loop extensions [] = []"
| "code_files_loop extensions ((root, dirs, files) # rest) =
     map (join root) (filter (\<lambda>file. list_ex (endswith file) extensions) files)
     @ code_files_loop extensions rest"

definition get_code_files :: "env \<Rightarrow> ustring \<Rightarrow> ustring list \<Rightarrow> ustring list" where
  "get_code_files env directory extensions =
     (case env_dir env directory of
        None \<Rightarrow> []
      | Some d \<Rightarrow> code_files_loop extensions (os_walk directory d))"

subsection \<open>The extractors\<close>

definition extract_python_info :: "env \<Rightarrow> ustring \<Rightarrow> error + file_record" where
  "extract_python_info env path =
     (case env_read env path of
        None \<Rightarrow> Inl IOError
      | Some content \<Rightarrow>
          (case env_parse env content of
             None \<Rightarrow> Inl ParseError
           | Some tree \<Rightarrow>
               let cls = List.map_filter class_name (walk tree);
                   fns = List.map_filter function_name (walk tree)
               in (case fst (generate_ai_summary (env_summarizer env) content) of
                     Inl e \<Rightarrow> Inl e
                   | Inr s \<Rightarrow> Inr \<lparr>file' = path, classes = cls, functions' = fns, summary = s\<rparr>)))"

definition extract_js_cpp_info :: "env \<Rightarrow> ustring \<Rightarrow> error + file_record" where
  "extract_js_cpp_info env path =
     (case env_read env path of
        None \<Rightarrow> Inl IOError
      | Some content \<Rightarrow>
          let cls = findall (env_alnum env) class_pattern content;
              fns = findall (env_alnum env) function_pattern content
          in (case fst (generate_ai_summary (env_summarizer env) content) of
                Inl e \<Rightarrow> Inl e
              | Inr s \<Rightarrow> Inr \<lparr>file' = path, classes = cls, functions' = fns, summary = s\<rparr>))"

subsection \<open>The report\<close>

text \<open>\<^verbatim>\<open>os.path.basename\<close>: what follows the last slash.\<close>

definition basename :: "ustring \<Rightarrow> ustring" where
  "basename p = rev (takeWhile (\<lambda>c. c \<noteq> 47) (rev p))"

text \<open>
  The output file is opened with \<^verbatim>\<open>encoding="utf-8"\<close>, so a \<^verbatim>\<open>write\<close> whose text holds a
  character that UTF-8 cannot encode (a lone surrogate, as \<^verbatim>\<open>os.walk\<close> yields for a file
  name that is not UTF-8) raises \<^verbatim>\<open>UnicodeEncodeError\<close>. A value above U+10FFFF is not a
  character of a Python string at all.
\<close>

datatype write_error = OSError | UnicodeEncodeError

definition encodable :: "nat \<Rightarrow> bool" where
  "encodable c \<longleftrightarrow> c < 0xD800 \<or> (0xDFFF < c \<and> c \<le> 0x10FFFF)"

text \<open>
  The texts that \<open>generate_markdown_summary\<close> passes to \<^verbatim>\<open>f.write\<close> for one record, in
  order: the heading, the path, the classes if there are any, the functions if there are
  any, the summary and a rule. The pictographs of the source are the code points U+1F916,
  U+1F4C2, U+1F4DC, U+1F4DD and U+2705.
\<close>

definition bullet :: "ustring \<Rightarrow> ustring" where
  "bullet name = ustr ''- `'' @ name @ ustr ''`'' @ [10]"

definition item_writes :: "file_record \<Rightarrow> ustring list" where
  "item_writes item =
     [ustr ''## '' @ basename (file' item) @ [10],
      [0x1F4C2] @ ustr '' **Path:** `'' @ file' item @ ustr ''`'' @ [10, 10]]
     @ (if classes item \<noteq> [] then (ustr ''### Classes'' @ [10]) # map bullet (classes item)
        else [])
     @ (if functions' item \<noteq> []
        then ([10] @ ustr ''### Functions'' @ [10]) # map bullet (functions' item)
        else [])
     @ [[10] @ ustr ''### AI-Powered Summary '' @ [0x1F4DC, 10],
        [0x1F4DD] @ ustr '' '' @ summary item @ [10, 10],
        [10] @ ustr ''---'' @ [10]]"

text \<open>
  The writes in sequence, with the content of the file as state: the first write that
  cannot be encoded raises, and the file keeps what was written before it. On a POSIX
  system the text of a write reaches the file as it is.
\<close>

fun write_all :: "ustring list \<Rightarrow> ustring \<Rightarrow> (write_error + unit) \<times> ustring" where
  "write_all [] out = (Inr (), out)"
| "write_all (w # ws) out =
     (if list_all encodable w then write_all ws (out @ w) else (Inl UnicodeEncodeError, out))"

text \<open>
  \<open>generate_markdown_summary\<close> returns how it ended and the content of the output file,
  \<open>None\<close> when the file was not opened. \<open>can_open\<close> tells whether the operating system
  lets the program open the file for writing. After the file is closed the program
  prints a confirmation; \<open>can_print\<close> tells whether the standard output can encode a text.
\<close>

definition generate_markdown_summary ::
  "bool \<Rightarrow> (ustring \<Rightarrow> bool) \<Rightarrow> file_record list \<Rightarrow> (write_error + unit) \<times> ustring option" where
  "generate_markdown_summary can_open can_print code_info =
     (if \<not> can_open then (Inl OSError, None)
      else
        (case write_all
                ((ustr ''# CodeMap Summary (AI-Powered) '' @ [0x1F916, 10, 10])
                 # concat (map item_writes code_info)) [] of
           (Inl e, out) \<Rightarrow> (Inl e, Some out)
         | (Inr u, out) \<Rightarrow>
             if can_print ([0x2705] @ ustr '' AI-powered code summary generated in DevSync.md!'')
             then (Inr (), Some out) else (Inl UnicodeEncodeError, Some out)))"

subsection \<open>The entry point\<close>



subsection \<open>Notions used to state the properties\<close>

text \<open>
  The nodes of a tree in the order of the source text: a node, then the subtrees of its
  children from left to right.
\<close>

fun preorder :: "node \<Rightarrow> node list" where
  "preorder (Node k cs) = Node k cs # concat (map preorder cs)"

text \<open>
  The names of the class definitions and of the function definitions anywhere in a tree,
  read off the tree itself. A function definition is written \<^verbatim>\<open>def\<close> or
  \<^verbatim>\<open>async def\<close>; \<open>plain_definition_names\<close> are those written \<^verbatim>\<open>def\<close>.
\<close>

fun class_definition_names :: "node \<Rightarrow> ustring set" where
  "class_definition_names (Node k cs) =
     (case k of ClassDef name \<Rightarrow> {name} | _ \<Rightarrow> {}) \<union> (\<Union>c \<in> set cs. class_definition_names c)"

fun function_definition_names :: "node \<Rightarrow> ustring set" where
  "function_definition_names (Node k cs) =
     (case k of FunctionDef name \<Rightarrow> {name} | AsyncFunctionDef name \<Rightarrow> {name} | _ \<Rightarrow> {})
     \<union> (\<Union>c \<in> set cs. function_definition_names c)"

fun plain_definition_names :: "node \<Rightarrow> ustring set" where
  "plain_definition_names (Node k cs) =
     (case k of FunctionDef name \<Rightarrow> {name} | _ \<Rightarrow> {})
     \<union> (\<Union>c \<in> set cs. plain_definition_names c)"

text \<open>
  The nodes of a tree by nesting depth: \<open>nodes_at d t\<close> are the nodes \<open>d\<close> levels below
  the root, from left to right, and \<open>levels\<close> lists depth 0, then depth 1, and so on.
\<close>

fun children :: "node \<Rightarrow> node list" where
  "children (Node k cs) = cs"

fun height :: "node \<Rightarrow> nat" where
  "height (Node k cs) = Suc (foldr max (map height cs) 0)"

fun nodes_at :: "nat \<Rightarrow> node \<Rightarrow> node list" where
  "nodes_at 0 t = [t]"
| "nodes_at (Suc d) (Node k cs) = concat (map (nodes_at d) cs)"

definition levels :: "node \<Rightarrow> node list" where
  "levels t = concat (map (\<lambda>d. nodes_at d t) [0 ..< height t])"

text \<open>
  The names of the class-definition nodes and of the \<^verbatim>\<open>def\<close> nodes of a list of nodes,
  in the order of the list.
\<close>

fun class_names_of :: "node list \<Rightarrow> ustring list" where
  "class_names_of [] = []"
| "class_names_of (Node (ClassDef name) cs # ns) = name # class_names_of ns"
| "class_names_of (n # ns) = class_names_of ns"

fun def_names_of :: "node list \<Rightarrow> ustring list" where
  "def_names_of [] = []"
| "def_names_of (Node (FunctionDef name) cs # ns) = name # def_names_of ns"
| "def_names_of (n # ns) = def_names_of ns"

text \<open>
  The occurrences of a pattern in a text \<open>T\<close>. \<open>first_match\<close> is the match a
  backtracking matcher reports at position \<open>i\<close> of \<open>T\<close>, as the end of the match and the
  text of its group. A list of triples (start, end, group) is the list of occurrences
  from \<open>pos\<close> on when
  \<^item> it is \<open>in_order\<close>: each triple starts at or after \<open>pos\<close>, ends at or after its start,
    and the next starts at or after its end and after its start;
  \<^item> each triple is the match at its start, and its group is a piece of \<open>T\<close> that lies
    between its start and its end;
  \<^item> every position at which the pattern matches is the start of a triple or lies
    strictly inside one: no match to the left of a triple is left out.
\<close>

fun in_order :: "nat \<Rightarrow> (nat \<times> nat \<times> ustring) list \<Rightarrow> bool" where
  "in_order pos [] = True"
| "in_order pos ((s, e, g) # ms) = (pos \<le> s \<and> s \<le> e \<and> in_order (max e (Suc s)) ms)"

definition char_before :: "ustring \<Rightarrow> nat \<Rightarrow> nat option" where
  "char_before T i = (if i = 0 then None else Some (T ! (i - 1)))"

definition first_match :: "(nat \<Rightarrow> bool) \<Rightarrow> rx \<Rightarrow> ustring \<Rightarrow> nat \<Rightarrow> (nat \<times> ustring) option" where
  "first_match alnum r T i =
     (case rmatch alnum r (char_before T i, drop i T, None) of
        [] \<Rightarrow> None
      | (p', xs', g) # _ \<Rightarrow> Some (length T - length xs', case g of None \<Rightarrow> [] | Some s \<Rightarrow> s))"

definition piece_in :: "ustring \<Rightarrow> nat \<Rightarrow> nat \<Rightarrow> ustring \<Rightarrow> bool" where
  "piece_in T s e g \<longleftrightarrow>
     list_ex (\<lambda>k. k + length g \<le> e \<and> take (length g) (drop k T) = g) [s ..< Suc e]"

definition covered :: "nat \<Rightarrow> (nat \<times> nat \<times> ustring) list \<Rightarrow> bool" where
  "covered i ms \<longleftrightarrow> list_ex (\<lambda>(s, e, g). s = i \<or> (s < i \<and> i < e)) ms"

definition occurrences_from ::
  "(nat \<Rightarrow> bool) \<Rightarrow> rx \<Rightarrow> ustring \<Rightarrow> nat \<Rightarrow> (nat \<times> nat \<times> ustring) list \<Rightarrow> bool" where
  "occurrences_from alnum r T pos ms \<longleftrightarrow>
     in_order pos ms
     \<and> list_all (\<lambda>(s, e, g). e \<le> length T \<and> first_match alnum r T s = Some (e, g)
                   \<and> piece_in T s e g) ms
     \<and> list_all (\<lambda>i. first_match alnum r T i = None \<or> covered i ms) [pos ..< Suc (length T)]"

definition occurrences ::
  "(nat \<Rightarrow> bool) \<Rightarrow> rx \<Rightarrow> ustring \<Rightarrow> (nat \<times> nat \<times> ustring) list \<Rightarrow> bool" where
  "occurrences alnum r T ms \<longleftrightarrow> occurrences_from alnum r T 0 ms"

text \<open>The least number of characters a match of an expression consumes.\<close>

fun min_len :: "rx \<Rightarrow> nat" where
  "min_len Bnd = 0"
| "min_len (Lit l) = length l"
| "min_len (Cls c) = 1"
| "min_len (Rep c n) = n"
| "min_len (Seq a b) = min_len a + min_len b"
| "min_len (Alt a b) = min (min_len a) (min_len b)"
| "min_len (Grp a) = min_len a"

text \<open>
  The files under a directory: each with the names of the directories that lead to it
  from the root, for every directory the walk enters, at any depth. \<open>render\<close> is the
  path of such a file.
\<close>

fun entries :: "dir \<Rightarrow> (ustring list \<times> ustring) list" where
  "entries (Dir files subs) =
     map (\<lambda>f. ([], f)) files @
     concat (map (\<lambda>(name, d). case d of None \<Rightarrow> []
                  | Some d' \<Rightarrow> map (\<lambda>(ds, f). (name # ds, f)) (entries d')) subs)"

definition render :: "ustring \<Rightarrow> ustring list \<times> ustring \<Rightarrow> ustring" where
  "render root e = foldl join root (fst e @ [snd e])"

text \<open>
  A well-formed tree: names are not empty and hold no slash, and no directory lists a
  file name or a subdirectory name twice.
\<close>

definition wf_name :: "ustring \<Rightarrow> bool" where
  "wf_name n \<longleftrightarrow> n \<noteq> [] \<and> 47 \<notin> set n"

fun wf_dir :: "dir \<Rightarrow> bool" where
  "wf_dir (Dir files subs) \<longleftrightarrow>
     list_all wf_name files \<and> distinct files \<and> list_all wf_name (map fst subs) \<and>
     distinct (map fst subs) \<and>
     list_all (\<lambda>(name, d). case d of None \<Rightarrow> True | Some d' \<Rightarrow> wf_dir d') subs"

text \<open>
  The shape of a path: the root, with a slash at its end unless it is empty or has one,
  then the names, each after a slash, without the first slash. \<open>selected\<close> are the paths
  of the files whose name ends with one of the extensions.
\<close>

definition norm_root :: "ustring \<Rightarrow> ustring" where
  "norm_root root = (if root = [] \<or> last root = 47 then root else root @ [47])"

definition enc :: "ustring list \<Rightarrow> ustring" where
  "enc ns = concat (map (\<lambda>m. 47 # m) ns)"

definition selected :: "ustring list \<Rightarrow> ustring \<Rightarrow> dir \<Rightarrow> ustring list" where
  "selected E root d = map (render root) (filter (\<lambda>(ds, f). list_ex (endswith f) E) (entries d))"


text \<open>
  The section of one record as one text, and the whole report; a record is
  \<open>encodable_record\<close> when UTF-8 can encode all its texts.
\<close>

definition write_item :: "file_record \<Rightarrow> ustring" where
  "write_item item =
     ustr ''## '' @ basename (file' item) @ [10]
     @ [0x1F4C2] @ ustr '' **Path:** `'' @ file' item @ ustr ''`'' @ [10, 10]
     @ (if classes item \<noteq> [] then ustr ''### Classes'' @ [10] @ concat (map bullet (classes item))
        else [])
     @ (if functions' item \<noteq> []
        then [10] @ ustr ''### Functions'' @ [10] @ concat (map bullet (functions' item))
        else [])
     @ [10] @ ustr ''### AI-Powered Summary '' @ [0x1F4DC, 10]
     @ [0x1F4DD] @ ustr '' '' @ summary item @ [10, 10]
     @ [10] @ ustr ''---'' @ [10]"

definition report_text :: "file_record list \<Rightarrow> ustring" where
  "report_text code_info =
     ustr ''# CodeMap Summary (AI-Powered) '' @ [0x1F916, 10, 10]
     @ concat (map write_item code_info)"

definition encodable_record :: "file_record \<Rightarrow> bool" where
  "encodable_record r \<longleftrightarrow>
     list_all encodable (file' r) \<and> list_all (list_all encodable) (classes r)
     \<and> list_all (list_all encodable) (functions' r) \<and> list_all encodable (summary r)"

text \<open>
  The report as a list of lines: \<open>unlines\<close> ends each line with a line feed, and
  \<open>item_lines\<close> are the lines written for one record, in three blocks after the heading
  and the path. A record is \<open>single_line\<close> when none of its texts holds a line feed.
\<close>

definition unlines :: "ustring list \<Rightarrow> ustring" where
  "unlines ls = concat (map (\<lambda>l. l @ [10]) ls)"

definition bullet_line :: "ustring \<Rightarrow> ustring" where
  "bullet_line name = ustr ''- `'' @ name @ ustr ''`''"

definition item_lines :: "file_record \<Rightarrow> ustring list" where
  "item_lines item =
     [ustr ''## '' @ basename (file' item),
      [0x1F4C2] @ ustr '' **Path:** `'' @ file' item @ ustr ''`'',
      []]
     @ (if classes item \<noteq> [] then ustr ''### Classes'' # map bullet_line (classes item) else [])
     @ (if functions' item \<noteq> []
        then [] # ustr ''### Functions'' # map bullet_line (functions' item) else [])
     @ [[], ustr ''### AI-Powered Summary '' @ [0x1F4DC], [0x1F4DD] @ ustr '' '' @ summary item,
        [], [], ustr ''---'']"

definition single_line :: "file_record \<Rightarrow> bool" where
  "single_line r \<longleftrightarrow>
     10 \<notin> set (file' r) \<and> list_all (\<lambda>c. 10 \<notin> set c) (classes r)
     \<and> list_all (\<lambda>f. 10 \<notin> set f) (functions' r) \<and> 10 \<notin> set (summary r)"

definition classes_block :: "ustring list \<Rightarrow> ustring list" where
  "classes_block cs = (if cs \<noteq> [] then ustr ''### Classes'' # map bullet_line cs else [])"

definition functions_block :: "ustring list \<Rightarrow> ustring list" where
  "functions_block fs =
     (if fs \<noteq> [] then [] # ustr ''### Functions'' # map bullet_line fs else [])"

definition summary_block :: "ustring \<Rightarrow> ustring list" where
  "summary_block s =
     [[], ustr ''### AI-Powered Summary '' @ [0x1F4DC], [0x1F4DD] @ ustr '' '' @ s,
      [], [], ustr ''---'']"

definition path_line :: "ustring \<Rightarrow> ustring" where
  "path_line p = [0x1F4C2] @ ustr '' **Path:** `'' @ p @ ustr ''`''"

subsection \<open>Sample inputs\<close>

text \<open>A text of 600 one-letter words, 1200 characters long.\<close>

definition long_text :: ustring where
  "long_text = concat (replicate 600 (ustr ''a ''))"

definition rec_a :: file_record where
  "rec_a = \<lparr>file' = ustr ''./a.py'', classes = [ustr ''Foo''], functions' = [ustr ''bar''],
     summary = sentinel\<rparr>"

definition rec_b :: file_record where
  "rec_b = \<lparr>file' = ustr ''./b.js'', classes = [ustr ''go'', ustr ''go''],
     functions' = [ustr ''go''], summary = sentinel\<rparr>"

text \<open>The text of a C++ file with a class, a method and a call in its body.\<close>

definition shape_text :: ustring where
  "shape_text = ustr ''class Shape { int area() { return compute(x); } }''"

definition shape_env :: env where
  "shape_env = \<lparr>env_alnum = (\<lambda>c. False), env_read = (\<lambda>p. Some shape_text),
     env_parse = (\<lambda>T. None), env_summarizer = (\<lambda>r. None), env_dir = (\<lambda>p. None)\<rparr>"

text \<open>
  A Python file in which a method comes before a top-level function, and its syntax
  tree: a module with the class \<open>A\<close>, which holds the method \<open>m\<close> (its arguments with the
  one argument, and its body), and the function \<open>f\<close> (its arguments and its body).
\<close>

definition py_text :: ustring where
  "py_text = ustr ''class A:'' @ [10] @ ustr ''    def m(self): pass'' @ [10] @ ustr ''def f(): pass'' @ [10]"

definition py_tree :: node where
  "py_tree =
     Node Other
       [Node (ClassDef (ustr ''A''))
          [Node (FunctionDef (ustr ''m'')) [Node Other [Node Other []], Node Other []]],
        Node (FunctionDef (ustr ''f'')) [Node Other [], Node Other []]]"

definition py_env :: env where
  "py_env = \<lparr>env_alnum = (\<lambda>c. False), env_read = (\<lambda>p. Some py_text),
     env_parse = (\<lambda>T. if T = py_text then Some py_tree else None),
     env_summarizer = (\<lambda>r. None), env_dir = (\<lambda>p. None)\<rparr>"

text \<open>
  A directory with code files at three depths, a file whose extension differs in case, a
  file with the extension in the middle of its name, and a subdirectory entry that is
  not entered.
\<close>

definition sample_dir :: dir where
  "sample_dir =
     Dir [ustr ''a.py'', ustr ''README.md'', ustr ''B.PY'']
       [(ustr ''src'', Some (Dir [ustr ''b.js'', ustr ''c.java.bak'']
                              [(ustr ''deep'', Some (Dir [ustr ''d.cpp''] []))])),
        (ustr ''link'', None)]"

definition fs_env :: env where
  "fs_env = \<lparr>env_alnum = (\<lambda>c. False),
     env_read = (\<lambda>p. if p = ustr ''./a.py'' then Some py_text else Some shape_text),
     env_parse = (\<lambda>T. if T = py_text then Some py_tree else None),
     env_summarizer = (\<lambda>r. None),
     env_dir = (\<lambda>p. if p = ustr ''.'' then Some sample_dir else None)\<rparr>"


text \<open>
  Two records with one-letter summaries, and one record whose summary spells out the end
  of the first section and the whole second section of their report.
\<close>

definition rec_x :: file_record where
  "rec_x = \<lparr>file' = ustr ''a.py'', classes = [], functions' = [], summary = ustr ''x''\<rparr>"

definition rec_y :: file_record where
  "rec_y = \<lparr>file' = ustr ''b.py'', classes = [], functions' = [], summary = ustr ''y''\<rparr>"

definition rec_xy :: file_record where
  "rec_xy = \<lparr>file' = ustr ''a.py'', classes = [], functions' = [],
     summary = ustr ''x'' @ [10, 10, 10] @ ustr ''---'' @ [10]
       @ ustr ''## b.py'' @ [10]
       @ [0x1F4C2] @ ustr '' **Path:** `b.py`'' @ [10, 10, 10]
       @ ustr ''### AI-Powered Summary '' @ [0x1F4DC, 10]
       @ [0x1F4DD] @ ustr '' y''\<rparr>"

text \<open>
  A Python file with a class \<open>C\<close> that holds a method \<open>m\<close> and a coroutine method
  \<open>am\<close>, a function \<open>f\<close> and a coroutine function \<open>g\<close>, and its syntax tree.
\<close>

definition async_text :: ustring where
  "async_text = ustr ''class C:'' @ [10] @ ustr ''    def m(self): pass'' @ [10]
     @ ustr ''    async def am(self): pass'' @ [10] @ ustr ''def f(): pass'' @ [10]
     @ ustr ''async def g(): pass'' @ [10]"

definition async_tree :: node where
  "async_tree =
     Node Other
       [Node (ClassDef (ustr ''C''))
          [Node (FunctionDef (ustr ''m'')) [Node Other [Node Other []], Node Other []],
           Node (AsyncFunctionDef (ustr ''am'')) [Node Other [Node Other []], Node Other []]],
        Node (FunctionDef (ustr ''f'')) [Node Other [], Node Other []],
        Node (AsyncFunctionDef (ustr ''g'')) [Node Other [], Node Other []]]"

definition async_env :: env where
  "async_env = \<lparr>env_alnum = (\<lambda>c. False), env_read = (\<lambda>p. Some async_text),
     env_parse = (\<lambda>T. if T = async_text then Some async_tree else None),
     env_summarizer = (\<lambda>r. None), env_dir = (\<lambda>p. None)\<rparr>"

text \<open>
  A Python file with a function in an \<^verbatim>\<open>if\<close> block, two classes with a method of the
  same name, and a last top-level function; its syntax tree; and a JavaScript text with
  a class name and a function name that occur twice.
\<close>

definition order_text :: ustring where
  "order_text = ustr ''if x:'' @ [10] @ ustr ''    def cond(): pass'' @ [10]
     @ ustr ''class A:'' @ [10] @ ustr ''    def run(self): pass'' @ [10]
     @ ustr ''class B:'' @ [10] @ ustr ''    def run(self): pass'' @ [10]
     @ ustr ''def last(): pass'' @ [10]"

definition order_tree :: node where
  "order_tree =
     Node Other
       [Node Other
          [Node Other [Node Other []],
           Node (FunctionDef (ustr ''cond'')) [Node Other [], Node Other []]],
        Node (ClassDef (ustr ''A''))
          [Node (FunctionDef (ustr ''run'')) [Node Other [Node Other []], Node Other []]],
        Node (ClassDef (ustr ''B''))
          [Node (FunctionDef (ustr ''run'')) [Node Other [Node Other []], Node Other []]],
        Node (FunctionDef (ustr ''last'')) [Node Other [], Node Other []]]"

definition js_text :: ustring where
  "js_text = ustr ''class A {} class B {} class A {} function go(){} function go(){}''"

definition order_env :: env where
  "order_env = \<lparr>env_alnum = (\<lambda>c. False),
     env_read = (\<lambda>p. if p = ustr ''b.py'' then Some order_text else Some js_text),
     env_parse = (\<lambda>T. if T = order_text then Some order_tree else None),
     env_summarizer = (\<lambda>r. None), env_dir = (\<lambda>p. None)\<rparr>"

text \<open>A record for a file whose name holds a lone surrogate.\<close>

definition rec_sur :: file_record where
  "rec_sur = \<lparr>file' = ustr ''./'' @ [0xDCFF] @ ustr ''.py'', classes = [], functions' = [],
     summary = sentinel\<rparr>"

section \<open>Properties\<close>

subsection \<open>Search\<close>

lemma search_loop_acc:
  "search_loop rs t acc = acc @ map file' (filter (matches t) rs)"
  by (induction rs arbitrary: acc) (auto simp: matches_def)

lemma search_codebase_filter:
  "search_codebase rs t = map file' (filter (matches t) rs)"
  by (simp add: search_codebase_def search_loop_acc)

text \<open>
  C7: \<open>search_codebase\<close> returns the paths of exactly the records in which the term
  is equal to an element of \<open>classes\<close> or of \<open>functions'\<close>, in the order of the
  input records, and the empty list when no record matches.
\<close>

theorem search_codebase_exact:
  "search_codebase rs t =
     map file' (filter (\<lambda>r. t \<in> set (classes r) \<or> t \<in> set (functions' r)) rs)
   \<and> ((\<forall>r \<in> set rs. t \<notin> set (classes r) \<and> t \<notin> set (functions' r))
        \<longrightarrow> search_codebase rs t = [])"
  by (induction rs) (auto simp: search_codebase_filter matches_def)

theorem search_codebase_exact_witness:
  "ustr ''Missing'' \<notin> set (classes rec_a) \<and> ustr ''Missing'' \<notin> set (functions' rec_a)
   \<and> search_codebase [rec_a] (ustr ''Missing'') = []"
  using search_codebase_exact [of "[rec_a]" "ustr ''Missing''"]
  by (simp add: rec_a_def ustr_def)

text \<open>
  C10: every matching record contributes its path exactly once, also when the term occurs
  in both of its lists or several times in one of them: the result has one entry per
  matching record, and no path twice when the records have different paths.
\<close>

theorem search_codebase_once:
  "length (search_codebase rs t) = length (filter (matches t) rs)
   \<and> (distinct (map file' rs) \<longrightarrow> distinct (search_codebase rs t))
   \<and> search_codebase (r # rs) t = (if matches t r then [file' r] else []) @ search_codebase rs t"
  by (simp add: search_codebase_filter distinct_map_filter)

theorem search_codebase_once_witness:
  "distinct (map file' [rec_b, rec_a])
   \<and> search_codebase [rec_b, rec_a] (ustr ''go'') = [ustr ''./b.js'']"
  using search_codebase_once [of "[rec_b, rec_a]" "ustr ''go''"]
  by (simp add: rec_a_def rec_b_def ustr_def search_codebase_filter matches_def)

subsection \<open>Pattern-based extraction\<close>

lemma rmatch_consumes:
  "(p', xs', g') \<in> set (rmatch U r (p, xs, g)) \<Longrightarrow> length xs' + min_len r \<le> length xs"
proof (induction r arbitrary: p xs g p' xs' g')
  case (Lit l)
  then have "take (length l) xs = l" and "xs' = drop (length l) xs"
    by (auto split: if_splits)
  from \<open>take (length l) xs = l\<close> have "length (take (length l) xs) = length l" by simp
  then have "length l \<le> length xs" by simp
  then show ?case using \<open>xs' = drop (length l) xs\<close> by simp
next
  case (Rep c n)
  then obtain k where k: "n \<le> k" "k \<le> length (takeWhile (in_class U c) xs)" "xs' = drop k xs"
    by auto
  have "length (takeWhile (in_class U c) xs) \<le> length xs" by (rule length_takeWhile_le)
  then show ?case using k by simp
next
  case (Seq a b)
  then obtain p1 xs1 g1 where
    "(p1, xs1, g1) \<in> set (rmatch U a (p, xs, g))" "(p', xs', g') \<in> set (rmatch U b (p1, xs1, g1))"
    by auto
  then show ?case using Seq.IH(1) Seq.IH(2) by fastforce
next
  case (Alt a b)
  then show ?case by fastforce
next
  case (Grp a)
  then show ?case by fastforce
qed (auto split: if_splits list.splits)

lemma patterns_consume:
  "(p', xs', g') \<in> set (rmatch U class_pattern (p, xs, g)) \<Longrightarrow> length xs' < length xs"
  "(p', xs', g') \<in> set (rmatch U function_pattern (p, xs, g)) \<Longrightarrow> length xs' < length xs"
  using rmatch_consumes [of p' xs' g' U class_pattern p xs g]
    rmatch_consumes [of p' xs' g' U function_pattern p xs g]
  by (simp_all add: class_pattern_def function_pattern_def ustr_def)

lemma scan_nomatch:
  "rmatch U r (p, xs, None) = [] \<Longrightarrow>
   scan U r pos p xs = (case xs of [] \<Rightarrow> [] | c # cs \<Rightarrow> scan U r (Suc pos) (Some c) cs)"
  by (subst scan.simps) simp

lemma scan_match:
  "rmatch U r (p, xs, None) = (p', xs', g) # ms \<Longrightarrow>
   scan U r pos p xs =
     (pos, pos + (length xs - length xs'), (case g of None \<Rightarrow> [] | Some s \<Rightarrow> s)) #
     (if length xs' < length xs then scan U r (pos + (length xs - length xs')) p' xs'
      else (case xs of [] \<Rightarrow> [] | c # cs \<Rightarrow> scan U r (Suc pos) (Some c) cs))"
  by (subst scan.simps) simp

lemma last_of_append: "last_of (last_of p a) b = last_of p (a @ b)"
  by (simp add: last_of_def)

lemma rmatch_step:
  "(p', xs', g') \<in> set (rmatch U r (p, xs, g)) \<Longrightarrow>
   \<exists>n. n \<le> length xs \<and> xs' = drop n xs \<and> p' = last_of p (take n xs)
     \<and> (g' = g \<or> (\<exists>k m. k + m \<le> n \<and> g' = Some (take m (drop k xs))))"
proof (induction r arbitrary: p xs g p' xs' g')
  case Bnd
  then have "xs' = drop 0 xs \<and> p' = last_of p (take 0 xs) \<and> g' = g"
    by (auto simp: last_of_def split: if_splits)
  then show ?case by blast
next
  case (Lit l)
  then have l: "take (length l) xs = l" and r: "xs' = drop (length l) xs" "p' = last_of p l" "g' = g"
    by (auto split: if_splits)
  from l have "length (take (length l) xs) = length l" by simp
  then have "length l \<le> length xs" by simp
  with l r show ?case by (intro exI [of _ "length l"]) simp
next
  case (Cls c)
  then obtain x where "xs = x # xs'" "p' = Some x" "g' = g"
    by (auto split: list.splits if_splits)
  then show ?case by (intro exI [of _ 1]) (simp add: last_of_def)
next
  case (Rep c m)
  then obtain k where k: "k < Suc (length (takeWhile (in_class U c) xs))"
    "xs' = drop k xs" "p' = last_of p (take k xs)" "g' = g"
    by (auto simp del: upt_Suc)
  have "length (takeWhile (in_class U c) xs) \<le> length xs" by (rule length_takeWhile_le)
  with k show ?case by (intro exI [of _ k]) simp
next
  case (Seq a b)
  then obtain p1 xs1 g1 where
    a: "(p1, xs1, g1) \<in> set (rmatch U a (p, xs, g))" and
    b: "(p', xs', g') \<in> set (rmatch U b (p1, xs1, g1))"
    by auto
  from Seq.IH(1) [OF a] obtain n1 where n1: "n1 \<le> length xs" "xs1 = drop n1 xs"
    "p1 = last_of p (take n1 xs)"
    "g1 = g \<or> (\<exists>k m. k + m \<le> n1 \<and> g1 = Some (take m (drop k xs)))" by blast
  from Seq.IH(2) [OF b] obtain n2 where n2: "n2 \<le> length xs1" "xs' = drop n2 xs1"
    "p' = last_of p1 (take n2 xs1)"
    "g' = g1 \<or> (\<exists>k m. k + m \<le> n2 \<and> g' = Some (take m (drop k xs1)))" by blast
  have 1: "n1 + n2 \<le> length xs" using n1 n2 by simp
  have 2: "xs' = drop (n1 + n2) xs" using n1 n2 by (simp add: add.commute)
  have 3: "p' = last_of p (take (n1 + n2) xs)"
    using n1 n2 by (simp add: last_of_append take_add)
  have 4: "g' = g \<or> (\<exists>k m. k + m \<le> n1 + n2 \<and> g' = Some (take m (drop k xs)))"
  proof (cases "g' = g1")
    case True
    with n1(4) show ?thesis by (metis trans_le_add1)
  next
    case False
    with n2(4) obtain k m where "k + m \<le> n2" "g' = Some (take m (drop k xs1))" by blast
    then have "(k + n1) + m \<le> n1 + n2 \<and> g' = Some (take m (drop (k + n1) xs))"
      using n1(2) by simp
    then show ?thesis by blast
  qed
  from 1 2 3 4 show ?case by blast
next
  case (Alt a b)
  then show ?case by auto
next
  case (Grp a)
  then obtain p0 xs0 g0 where a: "(p0, xs0, g0) \<in> set (rmatch U a (p, xs, g))"
    and r: "p' = p0" "xs' = xs0" "g' = Some (take (length xs - length xs0) xs)"
    by auto
  from Grp.IH [OF a] obtain n where n: "n \<le> length xs" "xs0 = drop n xs"
    "p0 = last_of p (take n xs)" by blast
  then have "length xs - length xs0 = n" by simp
  with r n have "0 + n \<le> n \<and> g' = Some (take n (drop 0 xs))" by simp
  with r n show ?case by blast
qed

lemma char_before_step:
  assumes "n \<le> length (drop i T)"
  shows "last_of (char_before T i) (take n (drop i T)) = char_before T (i + n)"
proof (cases "n = 0")
  case True
  then show ?thesis by (simp add: last_of_def)
next
  case False
  with assms have ne: "take n (drop i T) \<noteq> []" by auto
  have "last (take n (drop i T)) = T ! (i + n - 1)"
    using assms False by (simp add: last_conv_nth ne min_def) 
  then show ?thesis using False ne by (simp add: last_of_def char_before_def)
qed

lemma first_match_None:
  "first_match U r T pos = None \<longleftrightarrow> rmatch U r (char_before T pos, drop pos T, None) = []"
  by (auto simp: first_match_def split: list.splits)

lemma scan_miss:
  assumes "pos < length T" and "first_match U r T pos = None"
  shows "scan U r pos (char_before T pos) (drop pos T)
       = scan U r (Suc pos) (char_before T (Suc pos)) (drop (Suc pos) T)"
proof -
  have "drop pos T = T ! pos # drop (Suc pos) T" using assms(1) by (simp add: Cons_nth_drop_Suc)
  then show ?thesis
    using assms(2) by (subst scan_nomatch) (simp_all add: first_match_None char_before_def)
qed

lemma scan_miss_end:
  assumes "first_match U r T (length T) = None"
  shows "scan U r (length T) (char_before T (length T)) (drop (length T) T) = []"
  using assms by (subst scan_nomatch) (simp_all add: first_match_None)

lemma scan_hit:
  assumes "pos \<le> length T" and "first_match U r T pos = Some (e, g)"
  shows "pos \<le> e" and "e \<le> length T" and "piece_in T pos e g"
    and "scan U r pos (char_before T pos) (drop pos T) =
           (pos, e, g) #
           (if max e (Suc pos) \<le> length T
            then scan U r (max e (Suc pos)) (char_before T (max e (Suc pos)))
                   (drop (max e (Suc pos)) T)
            else [])"
proof -
  from assms(2) obtain p' xs' g0 ms where
    rm: "rmatch U r (char_before T pos, drop pos T, None) = (p', xs', g0) # ms"
    and e: "e = length T - length xs'" and g: "g = (case g0 of None \<Rightarrow> [] | Some s \<Rightarrow> s)"
    by (auto simp: first_match_def split: list.splits)
  have "(p', xs', g0) \<in> set (rmatch U r (char_before T pos, drop pos T, None))"
    by (simp add: rm)
  from rmatch_step [OF this] obtain n where n: "n \<le> length (drop pos T)"
    "xs' = drop n (drop pos T)" "p' = last_of (char_before T pos) (take n (drop pos T))"
    "g0 = None \<or> (\<exists>k m. k + m \<le> n \<and> g0 = Some (take m (drop k (drop pos T))))"
    by blast
  have xs': "xs' = drop (pos + n) T" using n(2) by (simp add: add.commute)
  have p': "p' = char_before T (pos + n)" using n(1,3) by (simp add: char_before_step)
  have en: "e = pos + n" using e xs' n(1) assms(1) by simp
  show "pos \<le> e" using en by simp
  show "e \<le> length T" using e by simp
  show "piece_in T pos e g"
  proof (cases g0)
    case None
    then have "g = []" using g by simp
    then show ?thesis using en by (auto simp: piece_in_def list_ex_iff intro: bexI [of _ pos])
  next
    case (Some t)
    with n(4) obtain k m where km: "k + m \<le> n" "t = take m (drop k (drop pos T))" by auto
    have gt: "g = take m (drop (pos + k) T)" using g Some km(2) by (simp add: add.commute)
    have len: "length g = m" using gt km(1) n(1) by simp
    have "pos + k \<in> set [pos ..< Suc e]" using en km(1) by (simp del: upt_Suc)
    moreover have "(pos + k) + length g \<le> e \<and> take (length g) (drop (pos + k) T) = g"
      using len gt en km(1) by simp
    ultimately show ?thesis unfolding piece_in_def list_ex_iff by blast
  qed
  have len: "length (drop pos T) - length xs' = n" using n(1,2) by simp
  show "scan U r pos (char_before T pos) (drop pos T) =
           (pos, e, g) #
           (if max e (Suc pos) \<le> length T
            then scan U r (max e (Suc pos)) (char_before T (max e (Suc pos)))
                   (drop (max e (Suc pos)) T)
            else [])"
  proof (cases "n = 0")
    case False
    then have "length xs' < length (drop pos T)" using n(1,2) by simp
    moreover have "max e (Suc pos) = pos + n" using en False by simp
    moreover have "pos + n \<le> length T" using n(1) assms(1) by simp
    ultimately show ?thesis
      by (subst scan_match [OF rm]) (simp add: len en g xs' p')
  next
    case True
    then have same: "\<not> length xs' < length (drop pos T)" using n(2) by simp
    have mx: "max e (Suc pos) = Suc pos" using en True by simp
    show ?thesis
    proof (cases "pos < length T")
      case True
      then have "drop pos T = T ! pos # drop (Suc pos) T" by (simp add: Cons_nth_drop_Suc)
      then show ?thesis
        using same True \<open>n = 0\<close>
        by (subst scan_match [OF rm]) (simp add: len en g mx char_before_def)
    next
      case False
      then have "drop pos T = []" by simp
      then show ?thesis
        using False \<open>n = 0\<close> by (subst scan_match [OF rm]) (simp add: en g mx)
    qed
  qed
qed

lemma covered_iff: "covered i ms \<longleftrightarrow> (\<exists>(s, e, g) \<in> set ms. s = i \<or> (s < i \<and> i < e))"
  by (simp add: covered_def list_ex_iff)

lemma occurrences_from_iff:
  "occurrences_from U r T pos ms \<longleftrightarrow>
     in_order pos ms
     \<and> (\<forall>(s, e, g) \<in> set ms. e \<le> length T \<and> first_match U r T s = Some (e, g) \<and> piece_in T s e g)
     \<and> (\<forall>i. pos \<le> i \<and> i \<le> length T \<longrightarrow> first_match U r T i = None \<or> covered i ms)"
  by (auto simp: occurrences_from_def list_all_iff simp del: upt_Suc)

lemma in_order_mono: "in_order a ms \<Longrightarrow> b \<le> a \<Longrightarrow> in_order b ms"
  by (cases ms) auto

lemma in_order_starts: "in_order q ms \<Longrightarrow> (s, e, g) \<in> set ms \<Longrightarrow> q \<le> s"
proof (induction ms arbitrary: q)
  case Nil
  then show ?case by simp
next
  case (Cons m ms)
  obtain s' e' g' where m: "m = (s', e', g')" by (cases m)
  show ?case
  proof (cases "(s, e, g) = m")
    case True
    then show ?thesis using Cons.prems m by simp
  next
    case False
    then have "(s, e, g) \<in> set ms" using Cons.prems by simp
    moreover have "in_order (max e' (Suc s')) ms" using Cons.prems m by simp
    ultimately have "max e' (Suc s') \<le> s" by (rule Cons.IH [rotated])
    then show ?thesis using Cons.prems m by simp
  qed
qed

lemma occurrences_fromI:
  assumes "in_order pos ms"
    and "\<And>s e g. (s, e, g) \<in> set ms \<Longrightarrow>
           e \<le> length T \<and> first_match U r T s = Some (e, g) \<and> piece_in T s e g"
    and "\<And>i. pos \<le> i \<Longrightarrow> i \<le> length T \<Longrightarrow> first_match U r T i = None \<or> covered i ms"
  shows "occurrences_from U r T pos ms"
  unfolding occurrences_from_iff using assms by auto

lemma occurrences_from_order: "occurrences_from U r T pos ms \<Longrightarrow> in_order pos ms"
  by (simp add: occurrences_from_iff)

lemma occurrences_from_sound:
  "occurrences_from U r T pos ms \<Longrightarrow> (s, e, g) \<in> set ms \<Longrightarrow>
   e \<le> length T \<and> first_match U r T s = Some (e, g) \<and> piece_in T s e g"
  unfolding occurrences_from_iff by auto

lemma occurrences_from_complete:
  "occurrences_from U r T pos ms \<Longrightarrow> pos \<le> i \<Longrightarrow> i \<le> length T \<Longrightarrow>
   first_match U r T i = None \<or> covered i ms"
  unfolding occurrences_from_iff by auto

lemma covered_Cons: "covered i ms \<Longrightarrow> covered i (m # ms)"
  by (simp add: covered_def)

lemma covered_head: "s = i \<or> (s < i \<and> i < e) \<Longrightarrow> covered i ((s, e, g) # ms)"
  by (simp add: covered_def)

lemma scan_occurrences:
  "pos \<le> length T \<Longrightarrow>
   occurrences_from U r T pos (scan U r pos (char_before T pos) (drop pos T))"
proof (induction "length T - pos" arbitrary: pos rule: less_induct)
  case less
  let ?S = "\<lambda>q. scan U r q (char_before T q) (drop q T)"
  show ?case
  proof (cases "first_match U r T pos")
    case None
    show ?thesis
    proof (cases "pos < length T")
      case True
      have ih: "occurrences_from U r T (Suc pos) (?S (Suc pos))"
        using True by (intro less.hyps) simp_all
      have eq: "?S pos = ?S (Suc pos)" using True None by (rule scan_miss)
      have "occurrences_from U r T pos (?S (Suc pos))"
      proof (rule occurrences_fromI)
        show "in_order pos (?S (Suc pos))"
          using occurrences_from_order [OF ih] by (rule in_order_mono) simp
      next
        fix s e g assume "(s, e, g) \<in> set (?S (Suc pos))"
        then show "e \<le> length T \<and> first_match U r T s = Some (e, g) \<and> piece_in T s e g"
          by (rule occurrences_from_sound [OF ih])
      next
        fix i assume i: "pos \<le> i" "i \<le> length T"
        show "first_match U r T i = None \<or> covered i (?S (Suc pos))"
        proof (cases "i = pos")
          case True
          then show ?thesis using None by simp
        next
          case False
          then have "Suc pos \<le> i" using i by simp
          then show ?thesis using i(2) by (rule occurrences_from_complete [OF ih])
        qed
      qed
      then show ?thesis by (simp only: eq)
    next
      case False
      then have pos: "pos = length T" using less.prems by simp
      have S: "?S pos = []" unfolding pos using None [unfolded pos] by (rule scan_miss_end)
      have "occurrences_from U r T pos []"
      proof (rule occurrences_fromI)
        fix i assume "pos \<le> i" "i \<le> length T"
        then have "i = pos" using pos by simp
        then show "first_match U r T i = None \<or> covered i []" using None by simp
      qed simp_all
      then show ?thesis by (simp only: S)
    qed
  next
    case (Some eg)
    obtain e g where eg: "eg = (e, g)" by (cases eg)
    have fm: "first_match U r T pos = Some (e, g)" using Some eg by simp
    note hit = scan_hit [OF less.prems fm]
    define n where "n = max e (Suc pos)"
    define tail where "tail = (if n \<le> length T then ?S n else [])"
    have S: "?S pos = (pos, e, g) # tail" unfolding tail_def n_def by (rule hit(4))
    have n_gt: "pos < n" "e \<le> n" by (simp_all add: n_def)
    have tail: "occurrences_from U r T n tail"
    proof (cases "n \<le> length T")
      case True
      have "occurrences_from U r T n (?S n)"
        using True n_gt less.prems by (intro less.hyps) auto
      then show ?thesis by (simp add: tail_def True)
    next
      case False
      have "occurrences_from U r T n []"
        by (rule occurrences_fromI) (use False in auto)
      then show ?thesis by (simp add: tail_def False)
    qed
    have "occurrences_from U r T pos ((pos, e, g) # tail)"
    proof (rule occurrences_fromI)
      have "in_order n tail" using tail by (rule occurrences_from_order)
      then show "in_order pos ((pos, e, g) # tail)" using hit(1) by (simp add: n_def)
    next
      fix s' e' g' assume "(s', e', g') \<in> set ((pos, e, g) # tail)"
      then consider "(s', e', g') = (pos, e, g)" | "(s', e', g') \<in> set tail" by auto
      then show "e' \<le> length T \<and> first_match U r T s' = Some (e', g') \<and> piece_in T s' e' g'"
      proof cases
        case 1
        then show ?thesis using hit(2,3) fm by simp
      next
        case 2
        then show ?thesis by (rule occurrences_from_sound [OF tail])
      qed
    next
      fix i assume i: "pos \<le> i" "i \<le> length T"
      show "first_match U r T i = None \<or> covered i ((pos, e, g) # tail)"
      proof (cases "i < n")
        case True
        then have "pos = i \<or> (pos < i \<and> i < e)" using i by (auto simp: n_def)
        then have "covered i ((pos, e, g) # tail)" by (rule covered_head)
        then show ?thesis ..
      next
        case False
        then have "n \<le> i" by simp
        then have "first_match U r T i = None \<or> covered i tail"
          using i(2) by (rule occurrences_from_complete [OF tail])
        then show ?thesis using covered_Cons by blast
      qed
    qed
    then show ?thesis by (simp only: S)
  qed
qed

lemma occurrences_from_head:
  assumes "occurrences_from U r T pos ((s, e, g) # ms)"
  shows "pos \<le> s" "s \<le> length T" "first_match U r T s = Some (e, g)"
    "occurrences_from U r T (max e (Suc s)) ms"
proof -
  have ord: "in_order pos ((s, e, g) # ms)" using assms by (rule occurrences_from_order)
  then show "pos \<le> s" by simp
  have snd: "e \<le> length T \<and> first_match U r T s = Some (e, g) \<and> piece_in T s e g"
    by (rule occurrences_from_sound [OF assms]) simp
  then show "first_match U r T s = Some (e, g)" by simp
  from ord snd show "s \<le> length T" by simp
  show "occurrences_from U r T (max e (Suc s)) ms"
  proof (rule occurrences_fromI)
    show "in_order (max e (Suc s)) ms" using ord by simp
  next
    fix s' e' g' assume "(s', e', g') \<in> set ms"
    then have "(s', e', g') \<in> set ((s, e, g) # ms)" by simp
    then show "e' \<le> length T \<and> first_match U r T s' = Some (e', g') \<and> piece_in T s' e' g'"
      by (rule occurrences_from_sound [OF assms])
  next
    fix i assume i: "max e (Suc s) \<le> i" "i \<le> length T"
    then have "pos \<le> i" using \<open>pos \<le> s\<close> by simp
    then have "first_match U r T i = None \<or> covered i ((s, e, g) # ms)"
      using i(2) by (rule occurrences_from_complete [OF assms])
    moreover have "\<not> (s = i \<or> (s < i \<and> i < e))" using i by auto
    ultimately show "first_match U r T i = None \<or> covered i ms"
      by (auto simp: covered_iff)
  qed
qed

lemma occurrences_from_first:
  assumes "occurrences_from U r T pos ms" and "occurrences_from U r T pos ((s, e, g) # ms')"
  shows "\<exists>s' e' g' rest. ms = (s', e', g') # rest \<and> s' \<le> s"
proof -
  note h = occurrences_from_head [OF assms(2)]
  have "first_match U r T s = None \<or> covered s ms"
    using h(1,2) by (rule occurrences_from_complete [OF assms(1)])
  then have "covered s ms" using h(3) by simp
  then obtain a b c where abc: "(a, b, c) \<in> set ms" "a = s \<or> (a < s \<and> s < b)"
    by (auto simp: covered_iff)
  then obtain m rest where ms: "ms = m # rest" by (cases ms) auto
  obtain s' e' g' where m: "m = (s', e', g')" by (cases m)
  have "in_order pos ms" using assms(1) by (rule occurrences_from_order)
  then have "in_order s' ms" using ms m by simp
  from in_order_starts [OF this abc(1)] abc(2) have "s' \<le> s" by auto
  then show ?thesis using ms m by blast
qed

lemma occurrences_unique:
  "occurrences_from U r T pos ms \<Longrightarrow> occurrences_from U r T pos ms' \<Longrightarrow> ms = ms'"
proof (induction ms arbitrary: pos ms')
  case Nil
  show ?case
  proof (cases ms')
    case Nil
    then show ?thesis by simp
  next
    case (Cons m rest)
    obtain s e g where "m = (s, e, g)" by (cases m)
    with Nil.prems(2) Cons have "occurrences_from U r T pos ((s, e, g) # rest)" by simp
    from occurrences_from_first [OF Nil.prems(1) this] show ?thesis by simp
  qed
next
  case (Cons m ms)
  obtain s e g where m: "m = (s, e, g)" by (cases m)
  have o1: "occurrences_from U r T pos ((s, e, g) # ms)" using Cons.prems(1) m by simp
  from occurrences_from_first [OF Cons.prems(2) o1]
  obtain s' e' g' rest where ms': "ms' = (s', e', g') # rest" and le1: "s' \<le> s" by blast
  have o2: "occurrences_from U r T pos ((s', e', g') # rest)" using Cons.prems(2) ms' by simp
  from occurrences_from_first [OF o1 o2] have le2: "s \<le> s'" by simp
  from le1 le2 have s: "s' = s" by simp
  note h1 = occurrences_from_head [OF o1] and h2 = occurrences_from_head [OF o2]
  from h1(3) h2(3) s have eg: "e' = e" "g' = g" by simp_all
  have "ms = rest"
    using h1(4) h2(4) unfolding s eg by (rule Cons.IH)
  then show ?case using m ms' s eg by simp
qed

lemma findall_occurrences:
  "occurrences U r T (scan U r 0 None T)"
  using scan_occurrences [of 0 T U r] by (simp add: occurrences_def char_before_def)

lemma shape_functions: "findall alnum function_pattern shape_text = []"
  unfolding findall_def function_pattern_def shape_text_def ustr_def
  by (simp add: scan.simps is_word_def is_space_def last_of_def at_boundary_def)

lemma shape_classes: "findall alnum class_pattern shape_text = [ustr ''Shape'']"
  unfolding findall_def class_pattern_def shape_text_def ustr_def
  by (simp add: scan.simps is_word_def is_space_def last_of_def at_boundary_def)

lemma shape_short: "length (split shape_text) < 50"
  by (simp add: split_def shape_text_def ustr_def is_space_def)

text \<open>
  C1: on the text \<^verbatim>\<open>class Shape { int area() { return compute(x); } }\<close> the function
  pattern finds nothing, where the claim expects \<^verbatim>\<open>["area", "compute"]\<close>: its second
  alternative asks for an identifier and a parenthesis before the captured name, so an
  identifier followed by a parenthesis is not captured.
\<close>

theorem function_pattern_shape:
  "findall alnum function_pattern shape_text = []
   \<and> extract_js_cpp_info shape_env (ustr ''shape.cpp'') =
       Inr \<lparr>file' = ustr ''shape.cpp'', classes = [ustr ''Shape''], functions' = [],
            summary = sentinel\<rparr>"
  by (simp add: shape_functions shape_classes extract_js_cpp_info_def shape_env_def
      generate_ai_summary_def shape_short)

subsection \<open>Grammar-based extraction\<close>

lemma walk_queue_mset: "mset (walk_queue q) = mset (concat (map preorder q))"
  by (induction q rule: walk_queue.induct) (simp_all add: ac_simps)

lemma walk_mset: "mset (walk t) = mset (preorder t)"
  by (simp add: walk_def walk_queue_mset)

lemma map_filter_mset:
  "mset xs = mset ys \<Longrightarrow> mset (List.map_filter f xs) = mset (List.map_filter f ys)"
  by (metis List.map_filter_def mset_filter mset_map)

lemma map_filter_set:
  "mset xs = mset ys \<Longrightarrow> set (List.map_filter f xs) = set (List.map_filter f ys)"
  by (metis map_filter_mset set_mset_mset)

lemma walk_queue_append:
  "walk_queue (q @ r) = q @ walk_queue (r @ concat (map children q))"
proof (induction q arbitrary: r)
  case Nil
  show ?case by simp
next
  case (Cons x q)
  obtain k cs where x: "x = Node k cs" by (cases x)
  have "walk_queue ((x # q) @ r) = x # walk_queue (q @ (r @ cs))" by (simp add: x)
  also have "\<dots> = x # q @ walk_queue ((r @ cs) @ concat (map children q))"
    by (simp only: Cons.IH)
  finally show ?case by (simp add: x)
qed

lemma walk_queue_level:
  "walk_queue q = q @ walk_queue (concat (map children q))"
  using walk_queue_append [of q "[]"] by simp

lemma height_child: "c \<in> set cs \<Longrightarrow> height c \<le> foldr max (map height cs) 0"
  by (induction cs) auto

lemma height_children: "height t \<le> Suc h \<Longrightarrow> c \<in> set (children t) \<Longrightarrow> height c \<le> h"
  by (cases t) (use height_child in fastforce)

lemma nodes_at_Suc: "nodes_at (Suc d) t = concat (map (nodes_at d) (children t))"
  by (cases t) simp

lemma nodes_at_Suc_list:
  "concat (map (nodes_at (Suc d)) q) = concat (map (nodes_at d) (concat (map children q)))"
  by (induction q) (simp_all add: nodes_at_Suc del: nodes_at.simps)

lemma nodes_at_0_list: "concat (map (nodes_at 0) q) = q"
  by (induction q) simp_all

lemma upt_Suc_shift: "map f [0 ..< Suc h] = f 0 # map (\<lambda>d. f (Suc d)) [0 ..< h]"
  by (simp add: upt_conv_Cons map_Suc_upt [symmetric] del: upt_Suc)

lemma walk_queue_levels:
  "(\<And>t. t \<in> set q \<Longrightarrow> height t \<le> h) \<Longrightarrow>
   walk_queue q = concat (map (\<lambda>d. concat (map (nodes_at d) q)) [0 ..< h])"
proof (induction h arbitrary: q)
  case 0
  have "q = []"
  proof (cases q)
    case (Cons t q')
    then have "height t \<le> 0" using 0 by simp
    then show ?thesis by (cases t) simp
  qed simp
  then show ?case by simp
next
  case (Suc h)
  let ?n = "concat (map children q)"
  have "\<And>c. c \<in> set ?n \<Longrightarrow> height c \<le> h"
    using Suc.prems height_children by auto
  then have ih: "walk_queue ?n = concat (map (\<lambda>d. concat (map (nodes_at d) ?n)) [0 ..< h])"
    by (rule Suc.IH)
  have "concat (map (\<lambda>d. concat (map (nodes_at d) q)) [0 ..< Suc h])
      = concat (map (nodes_at 0) q) @ concat (map (\<lambda>d. concat (map (nodes_at (Suc d)) q)) [0 ..< h])"
    by (simp only: upt_Suc_shift concat.simps)
  also have "\<dots> = q @ walk_queue ?n"
    by (simp add: ih nodes_at_Suc_list nodes_at_0_list del: nodes_at.simps(2))
  finally show ?case using walk_queue_level [of q] by simp
qed

lemma walk_levels: "walk t = levels t"
  using walk_queue_levels [of "[t]" "height t"] by (simp add: walk_def levels_def)


lemma py_text_short: "length (split py_text) < 50"
  by (simp add: split_def py_text_def ustr_def is_space_def)

lemma class_names_preorder:
  "set (List.map_filter class_name (preorder t)) = class_definition_names t"
proof (induction t rule: preorder.induct)
  case (1 k cs)
  have "set (List.map_filter class_name (concat (map preorder cs)))
      = (\<Union>c \<in> set cs. class_definition_names c)"
    using 1 by (induction cs) (simp_all add: List.map_filter_def)
  then show ?case by (cases k) (simp_all add: List.map_filter_def)
qed

lemma plain_names_preorder:
  "set (List.map_filter function_name (preorder t)) = plain_definition_names t"
proof (induction t rule: preorder.induct)
  case (1 k cs)
  have "set (List.map_filter function_name (concat (map preorder cs)))
      = (\<Union>c \<in> set cs. plain_definition_names c)"
    using 1 by (induction cs) (simp_all add: List.map_filter_def)
  then show ?case by (cases k) (simp_all add: List.map_filter_def)
qed

text \<open>
  What the grammar-based extractor returns, as sets: the names of all class definitions,
  and the names of the function definitions written \<^verbatim>\<open>def\<close>, at any depth.
\<close>

lemma extract_python_info_sets:
  assumes "env_read env p = Some T" and "env_parse env T = Some tree"
    and "extract_python_info env p = Inr r"
  shows "set (classes r) = class_definition_names tree"
    and "set (functions' r) = plain_definition_names tree"
  using assms
  by (auto simp: extract_python_info_def Let_def map_filter_set [OF walk_mset]
      class_names_preorder plain_names_preorder split: sum.splits)

lemma async_text_short: "length (split async_text) < 50"
  by (simp add: split_def async_text_def ustr_def is_space_def)

text \<open>
  C2: for a file with the coroutine definitions \<^verbatim>\<open>async def am\<close> (a method) and
  \<^verbatim>\<open>async def g\<close>, the functions returned are \<open>f\<close> and \<open>m\<close> only, while the
  function-definition names in the tree are \<open>m\<close>, \<open>am\<close>, \<open>f\<close> and \<open>g\<close>: the test
  \<^verbatim>\<open>isinstance(node, ast.FunctionDef)\<close> leaves out the nodes of class
  \<^verbatim>\<open>ast.AsyncFunctionDef\<close>.
\<close>

theorem extract_python_info_async:
  "extract_python_info async_env (ustr ''b.py'') =
     Inr \<lparr>file' = ustr ''b.py'', classes = [ustr ''C''], functions' = [ustr ''f'', ustr ''m''],
          summary = sentinel\<rparr>
   \<and> function_definition_names async_tree = {ustr ''m'', ustr ''am'', ustr ''f'', ustr ''g''}
   \<and> ustr ''am'' \<notin> set [ustr ''f'', ustr ''m''] \<and> ustr ''g'' \<notin> set [ustr ''f'', ustr ''m'']"
proof -
  have "extract_python_info async_env (ustr ''b.py'') =
     Inr \<lparr>file' = ustr ''b.py'', classes = [ustr ''C''], functions' = [ustr ''f'', ustr ''m''],
          summary = sentinel\<rparr>"
    by (simp add: extract_python_info_def async_env_def async_tree_def walk_def
        List.map_filter_simps generate_ai_summary_def async_text_short)
  moreover have "function_definition_names async_tree
      = {ustr ''m'', ustr ''am'', ustr ''f'', ustr ''g''}"
    by (auto simp: async_tree_def)
  ultimately show ?thesis by (simp add: ustr_def)
qed

subsection \<open>Order of the extracted names\<close>

lemma py_env_result:
  "extract_python_info py_env (ustr ''a.py'') =
     Inr \<lparr>file' = ustr ''a.py'', classes = [ustr ''A''], functions' = [ustr ''f'', ustr ''m''],
          summary = sentinel\<rparr>"
  by (simp add: extract_python_info_def py_env_def py_tree_def walk_def List.map_filter_simps
      generate_ai_summary_def py_text_short)

lemma class_names_of_filter: "List.map_filter class_name ns = class_names_of ns"
  by (induction ns rule: class_names_of.induct) (simp_all add: List.map_filter_simps)

lemma def_names_of_filter: "List.map_filter function_name ns = def_names_of ns"
  by (induction ns rule: def_names_of.induct) (simp_all add: List.map_filter_simps)

lemma levels_mset: "mset (levels t) = mset (preorder t)"
  using walk_mset [of t] by (simp add: walk_levels)

lemma extract_python_info_levels:
  assumes "extract_python_info env p = Inr r"
  shows "\<exists>T tree. env_read env p = Some T \<and> env_parse env T = Some tree
         \<and> classes r = class_names_of (levels tree)
         \<and> functions' r = def_names_of (levels tree)"
proof -
  from assms obtain T where T: "env_read env p = Some T"
    by (auto simp: extract_python_info_def split: option.splits)
  from assms T obtain tree where tree: "env_parse env T = Some tree"
    by (auto simp: extract_python_info_def split: option.splits)
  from assms T tree have
    "classes r = List.map_filter class_name (walk tree)"
    "functions' r = List.map_filter function_name (walk tree)"
    by (auto simp: extract_python_info_def Let_def split: sum.splits)
  then show ?thesis
    using T tree by (simp add: walk_levels class_names_of_filter def_names_of_filter)
qed

lemma findall_unique:
  "occurrences U r T ms \<Longrightarrow> ms = scan U r 0 None T"
proof -
  assume a: "occurrences U r T ms"
  have b: "occurrences U r T (scan U r 0 None T)" by (rule findall_occurrences)
  from a b show ?thesis unfolding occurrences_def by (rule occurrences_unique)
qed

lemma extract_js_cpp_info_occurrences:
  assumes "extract_js_cpp_info env p = Inr r"
  shows "\<exists>T cm fm. env_read env p = Some T
         \<and> occurrences (env_alnum env) class_pattern T cm
         \<and> (\<forall>ms. occurrences (env_alnum env) class_pattern T ms \<longrightarrow> ms = cm)
         \<and> classes r = map (\<lambda>(s, e, g). g) cm
         \<and> occurrences (env_alnum env) function_pattern T fm
         \<and> (\<forall>ms. occurrences (env_alnum env) function_pattern T ms \<longrightarrow> ms = fm)
         \<and> functions' r = map (\<lambda>(s, e, g). g) fm"
proof -
  from assms obtain T where T: "env_read env p = Some T"
    by (auto simp: extract_js_cpp_info_def split: option.splits)
  let ?cm = "scan (env_alnum env) class_pattern 0 None T"
  let ?fm = "scan (env_alnum env) function_pattern 0 None T"
  from assms T have "classes r = map (\<lambda>(s, e, g). g) ?cm" "functions' r = map (\<lambda>(s, e, g). g) ?fm"
    by (auto simp: extract_js_cpp_info_def Let_def findall_def split: sum.splits)
  moreover have "occurrences (env_alnum env) class_pattern T ?cm"
    "occurrences (env_alnum env) function_pattern T ?fm"
    by (rule findall_occurrences)+
  moreover have "\<forall>ms. occurrences (env_alnum env) class_pattern T ms \<longrightarrow> ms = ?cm"
    "\<forall>ms. occurrences (env_alnum env) function_pattern T ms \<longrightarrow> ms = ?fm"
    by (intro allI impI, erule findall_unique)+
  ultimately show ?thesis using T by (intro exI [of _ T] exI [of _ ?cm] exI [of _ ?fm] conjI)
qed

lemma extract_python_info_order:
  assumes "extract_python_info env p = Inr r"
  shows "\<exists>T tree. env_read env p = Some T \<and> env_parse env T = Some tree
         \<and> classes r = class_names_of (levels tree)
         \<and> functions' r = def_names_of (levels tree)
         \<and> mset (levels tree) = mset (preorder tree)"
proof -
  from extract_python_info_levels [OF assms] obtain T tree where
    "env_read env p = Some T" "env_parse env T = Some tree"
    "classes r = class_names_of (levels tree)" "functions' r = def_names_of (levels tree)"
    by (elim exE conjE)
  moreover have "mset (levels tree) = mset (preorder tree)" by (rule levels_mset)
  ultimately show ?thesis by (intro exI [of _ T] exI [of _ tree] conjI)
qed

lemma order_text_short: "length (split order_text) < 50"
  by (simp add: split_def order_text_def ustr_def is_space_def)

lemma js_text_short: "length (split js_text) < 50"
  by (simp add: split_def js_text_def ustr_def is_space_def)

lemma order_env_py:
  "extract_python_info order_env (ustr ''b.py'') =
     Inr \<lparr>file' = ustr ''b.py'', classes = [ustr ''A'', ustr ''B''],
          functions' = [ustr ''last'', ustr ''cond'', ustr ''run'', ustr ''run''],
          summary = sentinel\<rparr>"
  by (simp add: extract_python_info_def order_env_def order_tree_def walk_def
      List.map_filter_simps generate_ai_summary_def order_text_short)

lemma js_text_classes:
  "findall alnum class_pattern js_text = [ustr ''A'', ustr ''B'', ustr ''A'']"
  unfolding findall_def class_pattern_def js_text_def ustr_def
  by (simp add: scan.simps is_word_def is_space_def last_of_def at_boundary_def)

lemma js_text_functions:
  "findall alnum function_pattern js_text = [ustr ''go'', ustr ''go'']"
  unfolding findall_def function_pattern_def js_text_def ustr_def
  by (simp add: scan.simps is_word_def is_space_def last_of_def at_boundary_def)

lemma order_env_js:
  "extract_js_cpp_info order_env (ustr ''c.js'') =
     Inr \<lparr>file' = ustr ''c.js'', classes = [ustr ''A'', ustr ''B'', ustr ''A''],
          functions' = [ustr ''go'', ustr ''go''], summary = sentinel\<rparr>"
proof -
  have "env_read order_env (ustr ''c.js'') = Some js_text"
    by (simp add: order_env_def ustr_def)
  then show ?thesis
    by (simp add: extract_js_cpp_info_def js_text_classes js_text_functions
        generate_ai_summary_def js_text_short)
qed

text \<open>
  C5, as the claim states it, fails for the grammar-based variant: for a file in which the
  method \<open>m\<close> of a class comes before the top-level function \<open>f\<close>, the functions are
  listed as \<open>f\<close>, \<open>m\<close>, while the order of occurrence in the text is \<open>m\<close>, \<open>f\<close>.
\<close>

theorem extraction_order_counterexample:
  "extract_python_info py_env (ustr ''a.py'') =
     Inr \<lparr>file' = ustr ''a.py'', classes = [ustr ''A''], functions' = [ustr ''f'', ustr ''m''],
          summary = sentinel\<rparr>
   \<and> List.map_filter function_name (preorder py_tree) = [ustr ''m'', ustr ''f'']
   \<and> [ustr ''f'', ustr ''m''] \<noteq> [ustr ''m'', ustr ''f'']"
  by (simp add: py_env_result) (simp add: py_tree_def List.map_filter_simps ustr_def)

text \<open>
  C5, amended. The grammar-based variant lists the names of the class-definition nodes
  and of the \<^verbatim>\<open>def\<close> nodes in breadth-first order of the syntax tree: the nodes one step
  below the root, then those two steps below, and so on, each level from left to right,
  where every syntax node on the way counts as a step (a class or a function, and also an
  \<^verbatim>\<open>if\<close>, \<^verbatim>\<open>try\<close>, \<^verbatim>\<open>with\<close> or loop statement); every node of the tree is in that order
  once. The pattern-based variant lists the group of each occurrence of the pattern in
  the text, in ascending position: the occurrences are the leftmost matches that do not
  overlap, the name is a piece of the text inside its occurrence, and the text has one
  list of occurrences only. Neither variant removes duplicates.
\<close>

theorem extraction_order:
  "(extract_python_info env p = Inr r \<longrightarrow>
      (\<exists>T tree. env_read env p = Some T \<and> env_parse env T = Some tree
         \<and> classes r = class_names_of (levels tree)
         \<and> functions' r = def_names_of (levels tree)
         \<and> mset (levels tree) = mset (preorder tree)))
   \<and> (extract_js_cpp_info env' p' = Inr r' \<longrightarrow>
      (\<exists>T cm fm. env_read env' p' = Some T
         \<and> occurrences (env_alnum env') class_pattern T cm
         \<and> (\<forall>ms. occurrences (env_alnum env') class_pattern T ms \<longrightarrow> ms = cm)
         \<and> classes r' = map (\<lambda>(s, e, g). g) cm
         \<and> occurrences (env_alnum env') function_pattern T fm
         \<and> (\<forall>ms. occurrences (env_alnum env') function_pattern T ms \<longrightarrow> ms = fm)
         \<and> functions' r' = map (\<lambda>(s, e, g). g) fm))"
proof (intro conjI impI)
  assume "extract_python_info env p = Inr r"
  then show "\<exists>T tree. env_read env p = Some T \<and> env_parse env T = Some tree
         \<and> classes r = class_names_of (levels tree)
         \<and> functions' r = def_names_of (levels tree)
         \<and> mset (levels tree) = mset (preorder tree)"
    by (rule extract_python_info_order)
next
  assume "extract_js_cpp_info env' p' = Inr r'"
  then show "\<exists>T cm fm. env_read env' p' = Some T
         \<and> occurrences (env_alnum env') class_pattern T cm
         \<and> (\<forall>ms. occurrences (env_alnum env') class_pattern T ms \<longrightarrow> ms = cm)
         \<and> classes r' = map (\<lambda>(s, e, g). g) cm
         \<and> occurrences (env_alnum env') function_pattern T fm
         \<and> (\<forall>ms. occurrences (env_alnum env') function_pattern T ms \<longrightarrow> ms = fm)
         \<and> functions' r' = map (\<lambda>(s, e, g). g) fm"
    by (rule extract_js_cpp_info_occurrences)
qed

theorem extraction_order_witness:
  "extract_python_info order_env (ustr ''b.py'') =
     Inr \<lparr>file' = ustr ''b.py'', classes = [ustr ''A'', ustr ''B''],
          functions' = [ustr ''last'', ustr ''cond'', ustr ''run'', ustr ''run''],
          summary = sentinel\<rparr>
   \<and> extract_js_cpp_info order_env (ustr ''c.js'') =
     Inr \<lparr>file' = ustr ''c.js'', classes = [ustr ''A'', ustr ''B'', ustr ''A''],
          functions' = [ustr ''go'', ustr ''go''], summary = sentinel\<rparr>
   \<and> [ustr ''A'', ustr ''B''] = class_names_of (levels order_tree)
   \<and> [ustr ''last'', ustr ''cond'', ustr ''run'', ustr ''run''] = def_names_of (levels order_tree)
   \<and> (\<exists>cm fm. occurrences (\<lambda>c. False) class_pattern js_text cm
         \<and> (\<forall>ms. occurrences (\<lambda>c. False) class_pattern js_text ms \<longrightarrow> ms = cm)
         \<and> [ustr ''A'', ustr ''B'', ustr ''A''] = map (\<lambda>(s, e, g). g) cm
         \<and> occurrences (\<lambda>c. False) function_pattern js_text fm
         \<and> (\<forall>ms. occurrences (\<lambda>c. False) function_pattern js_text ms \<longrightarrow> ms = fm)
         \<and> [ustr ''go'', ustr ''go''] = map (\<lambda>(s, e, g). g) fm)"
proof -
  let ?R = "\<lparr>file' = ustr ''b.py'', classes = [ustr ''A'', ustr ''B''],
          functions' = [ustr ''last'', ustr ''cond'', ustr ''run'', ustr ''run''],
          summary = sentinel\<rparr>"
  let ?S = "\<lparr>file' = ustr ''c.js'', classes = [ustr ''A'', ustr ''B'', ustr ''A''],
          functions' = [ustr ''go'', ustr ''go''], summary = sentinel\<rparr>"
  note eo = extraction_order [of order_env "ustr ''b.py''" ?R order_env "ustr ''c.js''" ?S]
  have rd: "env_read order_env (ustr ''b.py'') = Some order_text"
    "env_parse order_env order_text = Some order_tree"
    "env_read order_env (ustr ''c.js'') = Some js_text" "env_alnum order_env = (\<lambda>c. False)"
    by (simp_all add: order_env_def ustr_def)
  from eo [THEN conjunct1, THEN mp, OF order_env_py] obtain T tree where
    "env_read order_env (ustr ''b.py'') = Some T" "env_parse order_env T = Some tree"
    "classes ?R = class_names_of (levels tree)" "functions' ?R = def_names_of (levels tree)"
    by (elim exE conjE)
  with rd have 1: "[ustr ''A'', ustr ''B''] = class_names_of (levels order_tree)"
    "[ustr ''last'', ustr ''cond'', ustr ''run'', ustr ''run''] = def_names_of (levels order_tree)"
    by simp_all
  from eo [THEN conjunct2, THEN mp, OF order_env_js] obtain T cm fm where o:
    "env_read order_env (ustr ''c.js'') = Some T"
    "occurrences (env_alnum order_env) class_pattern T cm"
    "\<forall>ms. occurrences (env_alnum order_env) class_pattern T ms \<longrightarrow> ms = cm"
    "classes ?S = map (\<lambda>(s, e, g). g) cm"
    "occurrences (env_alnum order_env) function_pattern T fm"
    "\<forall>ms. occurrences (env_alnum order_env) function_pattern T ms \<longrightarrow> ms = fm"
    "functions' ?S = map (\<lambda>(s, e, g). g) fm"
    by (elim exE conjE)
  from o(1) rd(3) have T: "T = js_text" by simp
  have 2: "occurrences (\<lambda>c. False) class_pattern js_text cm"
    "\<forall>ms. occurrences (\<lambda>c. False) class_pattern js_text ms \<longrightarrow> ms = cm"
    "[ustr ''A'', ustr ''B'', ustr ''A''] = map (\<lambda>(s, e, g). g) cm"
    "occurrences (\<lambda>c. False) function_pattern js_text fm"
    "\<forall>ms. occurrences (\<lambda>c. False) function_pattern js_text ms \<longrightarrow> ms = fm"
    "[ustr ''go'', ustr ''go''] = map (\<lambda>(s, e, g). g) fm"
  proof -
    show "occurrences (\<lambda>c. False) class_pattern js_text cm" using o(2) unfolding T rd(4) .
    show "\<forall>ms. occurrences (\<lambda>c. False) class_pattern js_text ms \<longrightarrow> ms = cm"
      using o(3) unfolding T rd(4) .
    show "occurrences (\<lambda>c. False) function_pattern js_text fm" using o(5) unfolding T rd(4) .
    show "\<forall>ms. occurrences (\<lambda>c. False) function_pattern js_text ms \<longrightarrow> ms = fm"
      using o(6) unfolding T rd(4) .
    show "[ustr ''A'', ustr ''B'', ustr ''A''] = map (\<lambda>(s, e, g). g) cm" using o(4) by simp
    show "[ustr ''go'', ustr ''go''] = map (\<lambda>(s, e, g). g) fm" using o(7) by simp
  qed
  have "\<exists>cm fm. occurrences (\<lambda>c. False) class_pattern js_text cm
         \<and> (\<forall>ms. occurrences (\<lambda>c. False) class_pattern js_text ms \<longrightarrow> ms = cm)
         \<and> [ustr ''A'', ustr ''B'', ustr ''A''] = map (\<lambda>(s, e, g). g) cm
         \<and> occurrences (\<lambda>c. False) function_pattern js_text fm
         \<and> (\<forall>ms. occurrences (\<lambda>c. False) function_pattern js_text ms \<longrightarrow> ms = fm)
         \<and> [ustr ''go'', ustr ''go''] = map (\<lambda>(s, e, g). g) fm"
    by (rule exI [of _ cm], rule exI [of _ fm]) (intro conjI 2)
  with 1 order_env_py order_env_js show ?thesis by (intro conjI)
qed

subsection \<open>File discovery\<close>

lemma endswith_suffix: "endswith s e \<longleftrightarrow> suffix e s"
proof
  assume "endswith s e"
  then have "s = take (length s - length e) s @ e"
    by (metis append_take_drop_id endswith_def)
  then show "suffix e s" by (metis suffixI)
next
  assume "suffix e s"
  then obtain zs where "s = zs @ e" by (auto simp: suffix_def)
  then show "endswith s e" by (simp add: endswith_def)
qed

lemma render_Nil: "render root ([], f) = join root f"
  by (simp add: render_def)

lemma render_Cons: "render root (n # ds, f) = render (join root n) (ds, f)"
  by (simp add: render_def)

lemma render_sub:
  "map (render root) (filter (\<lambda>(ds, f). P f) (map (\<lambda>(ds, f). (name # ds, f)) xs))
   = map (render (join root name)) (filter (\<lambda>(ds, f). P f) xs)"
  by (induction xs) (auto simp: render_Cons)

lemma code_files_loop_append:
  "code_files_loop E (a @ b) = code_files_loop E a @ code_files_loop E b"
  by (induction a) auto

lemma code_files_loop_concat:
  "code_files_loop E (concat ws) = concat (map (code_files_loop E) ws)"
  by (induction ws) (auto simp: code_files_loop_append)

lemma selected_Dir:
  "selected E root (Dir files subs) =
     map (join root) (filter (\<lambda>file. list_ex (endswith file) E) files) @
     concat (map (\<lambda>(name, d). case d of None \<Rightarrow> [] | Some d' \<Rightarrow> selected E (join root name) d') subs)"
proof -
  have a: "map (render root) (filter (\<lambda>(ds, f). list_ex (endswith f) E) (map (Pair []) files))
      = map (join root) (filter (\<lambda>file. list_ex (endswith file) E) files)"
    by (induction files) (auto simp: render_Nil)
  have b: "map (render root) (filter (\<lambda>(ds, f). list_ex (endswith f) E)
        (concat (map (\<lambda>(name, d). case d of None \<Rightarrow> []
                  | Some d' \<Rightarrow> map (\<lambda>(ds, f). (name # ds, f)) (entries d')) subs)))
      = concat (map (\<lambda>(name, d). case d of None \<Rightarrow> [] | Some d' \<Rightarrow> selected E (join root name) d') subs)"
    by (induction subs) (auto simp: selected_def render_sub split: option.splits)
  show ?thesis
    unfolding selected_def entries.simps filter_append map_append a b ..
qed

lemma walk_Dir:
  "code_files_loop E (os_walk root (Dir files subs)) =
     map (join root) (filter (\<lambda>file. list_ex (endswith file) E) files) @
     concat (map (\<lambda>(name, d). case d of None \<Rightarrow> []
               | Some d' \<Rightarrow> code_files_loop E (os_walk (join root name) d')) subs)"
proof -
  have "code_files_loop E (concat (map (\<lambda>(name, d). case d of None \<Rightarrow> []
            | Some d' \<Rightarrow> os_walk (join root name) d') subs))
      = concat (map (\<lambda>(name, d). case d of None \<Rightarrow> []
               | Some d' \<Rightarrow> code_files_loop E (os_walk (join root name) d')) subs)"
    by (induction subs) (auto simp: code_files_loop_append split: option.splits)
  then show ?thesis by simp
qed

lemma walk_files: "code_files_loop E (os_walk root d) = selected E root d"
proof (induction root d rule: os_walk.induct)
  case (1 root files subs)
  have "map (\<lambda>(name, d). case d of None \<Rightarrow> []
               | Some d' \<Rightarrow> code_files_loop E (os_walk (join root name) d')) subs
      = map (\<lambda>(name, d). case d of None \<Rightarrow> [] | Some d' \<Rightarrow> selected E (join root name) d') subs"
    by (rule map_cong) (auto simp: "1.IH" split: option.splits)
  then show ?case by (simp only: walk_Dir selected_Dir)
qed


lemma join_wf: "wf_name n \<Longrightarrow> join root n = norm_root root @ n"
  by (cases n) (auto simp: join_def norm_root_def wf_name_def)

lemma wf_name_last: "wf_name n \<Longrightarrow> last n \<noteq> 47"
  by (metis last_in_set wf_name_def)

lemma foldl_join:
  "wf_name n \<Longrightarrow> list_all wf_name ns \<Longrightarrow> foldl join (P @ n) ns = P @ n @ enc ns"
proof (induction ns arbitrary: P n)
  case Nil
  show ?case by (simp add: enc_def)
next
  case (Cons m ms)
  have "join (P @ n) m = (P @ n @ [47]) @ m"
    using Cons.prems wf_name_last [of n]
    by (simp add: join_wf norm_root_def) (simp add: wf_name_def)
  then have "foldl join (P @ n) (m # ms) = foldl join ((P @ n @ [47]) @ m) ms" by simp
  also have "\<dots> = (P @ n @ [47]) @ m @ enc ms"
    using Cons.prems by (intro Cons.IH) simp_all
  finally show ?case by (simp add: enc_def)
qed

lemma render_wf:
  assumes "list_all wf_name ds" and "wf_name f"
  shows "render root (ds, f) = norm_root root @ tl (enc (ds @ [f]))"
proof (cases ds)
  case Nil
  then show ?thesis using assms by (simp add: render_def join_wf enc_def)
next
  case (Cons n ns)
  have "render root (ds, f) = foldl join (norm_root root @ n) (ns @ [f])"
    using Cons assms by (simp add: render_def join_wf)
  also have "\<dots> = norm_root root @ n @ enc (ns @ [f])"
    using Cons assms by (intro foldl_join) simp_all
  finally show ?thesis using Cons by (simp add: enc_def)
qed

lemma slash_split:
  assumes "47 \<notin> set a" and "47 \<notin> set b"
    and "x = [] \<or> hd x = 47" and "y = [] \<or> hd y = 47" and "a @ x = b @ y"
  shows "a = b \<and> x = y"
  using assms
proof (induction a arbitrary: b)
  case Nil
  then show ?case by (cases b) auto
next
  case (Cons c a)
  then show ?case by (cases b) auto
qed

lemma enc_head: "enc ns = [] \<or> hd (enc ns) = 47"
  by (cases ns) (simp_all add: enc_def)

lemma enc_inj:
  "list_all wf_name ns \<Longrightarrow> list_all wf_name ms \<Longrightarrow> enc ns = enc ms \<Longrightarrow> ns = ms"
proof (induction ns arbitrary: ms)
  case Nil
  then show ?case by (cases ms) (simp_all add: enc_def)
next
  case (Cons n ns)
  then obtain m ms' where ms: "ms = m # ms'" by (cases ms) (simp_all add: enc_def)
  from Cons.prems ms have eq: "n @ enc ns = m @ enc ms'" by (simp add: enc_def)
  have "n = m \<and> enc ns = enc ms'"
    using Cons.prems ms eq enc_head [of ns] enc_head [of ms']
    by (intro slash_split) (simp_all add: wf_name_def)
  then show ?case using Cons ms by simp
qed

lemma render_inj:
  assumes "list_all wf_name ds" "wf_name f" "list_all wf_name ds'" "wf_name f'"
    and "render root (ds, f) = render root (ds', f')"
  shows "ds = ds' \<and> f = f'"
proof -
  from assms have "tl (enc (ds @ [f])) = tl (enc (ds' @ [f']))"
    by (simp add: render_wf)
  moreover have "enc (ds @ [f]) \<noteq> []" "enc (ds' @ [f']) \<noteq> []"
    by (simp_all add: enc_def)
  moreover have "hd (enc (ds @ [f])) = 47" "hd (enc (ds' @ [f'])) = 47"
    using enc_head [of "ds @ [f]"] enc_head [of "ds' @ [f']"] by (simp_all add: enc_def)
  ultimately have "enc (ds @ [f]) = enc (ds' @ [f'])"
    by (metis list.collapse)
  then have "ds @ [f] = ds' @ [f']"
    using assms by (intro enc_inj) simp_all
  then show ?thesis by simp
qed

lemma entries_wf:
  "wf_dir d \<Longrightarrow> (ds, f) \<in> set (entries d) \<Longrightarrow> list_all wf_name ds \<and> wf_name f"
proof (induction d arbitrary: ds f rule: entries.induct)
  case (1 files subs)
  from "1.prems"(2) consider "ds = []" "f \<in> set files"
    | name d' ds' where "(name, Some d') \<in> set subs" "ds = name # ds'" "(ds', f) \<in> set (entries d')"
    by (auto split: option.splits)
  then show ?case
  proof cases
    case 1
    then show ?thesis using "1.prems"(1) by (auto simp: list_all_iff)
  next
    case 2
    from 2(1) "1.prems"(1) have "wf_dir d'" "wf_name name"
      by (auto simp: list_all_iff)
    with "1.IH" [OF 2(1) refl refl _ 2(3)] 2(2) show ?thesis by simp
  qed
qed

lemma entries_distinct: "wf_dir d \<Longrightarrow> distinct (entries d)"
proof (induction d rule: entries.induct)
  case (1 files subs)
  let ?sub = "\<lambda>(name, d). case d of None \<Rightarrow> []
                  | Some d' \<Rightarrow> map (\<lambda>(ds, f). (name # ds, f)) (entries d')"
  have each: "distinct (?sub x)" if "x \<in> set subs" for x
  proof (cases x)
    case (Pair name d)
    show ?thesis
    proof (cases d)
      case None
      then show ?thesis using Pair by simp
    next
      case (Some d')
      have "wf_dir d'" using "1.prems" that Pair Some by (auto simp: list_all_iff)
      then have "distinct (entries d')" using "1.IH" [OF that Pair [symmetric] Some] by simp
      then show ?thesis using Pair Some by (auto simp: distinct_map inj_on_def)
    qed
  qed
  have heads: "fst e \<noteq> [] \<and> hd (fst e) = fst x" if "e \<in> set (?sub x)" for e x
    using that by (cases x) (auto split: option.splits)
  have "distinct (map fst xs) \<Longrightarrow> set xs \<subseteq> set subs \<Longrightarrow> distinct (concat (map ?sub xs))" for xs
  proof (induction xs)
    case Nil
    show ?case by simp
  next
    case (Cons x xs)
    have "set (?sub x) \<inter> set (concat (map ?sub xs)) = {}"
    proof (rule ccontr)
      assume "\<not> ?thesis"
      then obtain e where e: "e \<in> set (?sub x)" "e \<in> set (concat (map ?sub xs))" by blast
      from e(2) obtain y where "y \<in> set xs" "e \<in> set (?sub y)"
        unfolding set_concat set_map by blast
      note \<open>e \<in> set (?sub x)\<close>
      with \<open>e \<in> set (?sub y)\<close> have "fst x = fst y" using heads by metis
      then show False using Cons.prems(1) \<open>y \<in> set xs\<close> by auto
    qed
    then show ?case using Cons each by auto
  qed
  then have sub: "distinct (concat (map ?sub subs))" using "1.prems" by simp
  have "distinct (map (Pair ([]::ustring list)) files)"
    using "1.prems" by (simp add: distinct_map inj_on_def)
  moreover have "set (map (Pair ([]::ustring list)) files) \<inter> set (concat (map ?sub subs)) = {}"
    using heads by fastforce
  ultimately show ?case using sub by simp
qed

lemma selected_distinct: "wf_dir d \<Longrightarrow> distinct (selected E root d)"
proof -
  assume wf: "wf_dir d"
  have "inj_on (render root) (set (entries d))"
  proof (rule inj_onI)
    fix x y assume "x \<in> set (entries d)" "y \<in> set (entries d)" "render root x = render root y"
    then show "x = y"
      using entries_wf [OF wf, of "fst x" "snd x"] entries_wf [OF wf, of "fst y" "snd y"]
        render_inj [of "fst x" "snd x" "fst y" "snd y" root]
      by (simp add: prod_eq_iff)
  qed
  then have "inj_on (render root) (set (filter (\<lambda>(ds, f). list_ex (endswith f) E) (entries d)))"
    by (rule inj_on_subset) auto
  then show ?thesis
    using entries_distinct [OF wf] by (simp add: selected_def distinct_map)
qed


lemma fs_env_files:
  "get_code_files fs_env (ustr ''.'') default_extensions =
     [ustr ''./a.py'', ustr ''./src/b.js'', ustr ''./src/deep/d.cpp'']"
  by (simp add: get_code_files_def fs_env_def sample_dir_def default_extensions_def
      join_def endswith_def ustr_def)

lemma sample_dir_wf: "wf_dir sample_dir"
  by (simp add: sample_dir_def wf_name_def ustr_def)

text \<open>
  C6: for a directory \<open>D\<close> that can be listed, \<open>get_code_files\<close> returns the paths of
  exactly the files under \<open>D\<close>, at any depth, whose name has an element of the extension
  list as a suffix (compared character by character), and no path twice.
\<close>

theorem get_code_files_exact:
  assumes "env_dir env D = Some d" and "wf_dir d"
  shows "get_code_files env D E =
           map (render D) (filter (\<lambda>(ds, f). \<exists>e \<in> set E. suffix e f) (entries d))
       \<and> distinct (get_code_files env D E)"
proof -
  have "get_code_files env D E = selected E D d"
    using assms(1) by (simp add: get_code_files_def walk_files)
  moreover have "selected E D d =
      map (render D) (filter (\<lambda>(ds, f). \<exists>e \<in> set E. suffix e f) (entries d))"
    by (simp add: selected_def list_ex_iff endswith_suffix)
  ultimately show ?thesis using selected_distinct [OF assms(2), of E D] by simp
qed

theorem get_code_files_exact_witness:
  "env_dir fs_env (ustr ''.'') = Some sample_dir \<and> wf_dir sample_dir
   \<and> get_code_files fs_env (ustr ''.'') default_extensions =
       [ustr ''./a.py'', ustr ''./src/b.js'', ustr ''./src/deep/d.cpp'']
   \<and> get_code_files fs_env (ustr ''.'') default_extensions =
       map (render (ustr ''.''))
         (filter (\<lambda>(ds, f). \<exists>e \<in> set default_extensions. suffix e f) (entries sample_dir))
   \<and> distinct (get_code_files fs_env (ustr ''.'') default_extensions)"
proof -
  have h1: "env_dir fs_env (ustr ''.'') = Some sample_dir" by (simp add: fs_env_def)
  from get_code_files_exact [OF h1 sample_dir_wf, of default_extensions] h1 sample_dir_wf
    fs_env_files
  show ?thesis by blast
qed

subsection \<open>The entry point\<close>














subsection \<open>The report\<close>

lemma write_all_encodable:
  "list_all (list_all encodable) ws \<Longrightarrow> write_all ws out = (Inr (), out @ concat ws)"
  by (induction ws arbitrary: out) simp_all

lemma item_writes_text: "concat (item_writes r) = write_item r"
  by (simp add: item_writes_def write_item_def)

lemma report_writes_text:
  "concat ((ustr ''# CodeMap Summary (AI-Powered) '' @ [0x1F916, 10, 10])
           # concat (map item_writes rs)) = report_text rs"
proof -
  have "concat (concat (map item_writes rs)) = concat (map write_item rs)"
    by (induction rs) (simp_all add: item_writes_text)
  then show ?thesis by (simp add: report_text_def)
qed

lemma basename_subset: "set (basename p) \<subseteq> set p"
  unfolding basename_def using set_takeWhileD by fastforce

lemma item_writes_encodable:
  assumes "encodable_record r"
  shows "list_all (list_all encodable) (item_writes r)"
proof -
  have "list_all encodable (basename (file' r))"
    using assms basename_subset [of "file' r"] by (auto simp: encodable_record_def list_all_iff)
  moreover have "list_all (list_all encodable) (map bullet ns)"
    if "list_all (list_all encodable) ns" for ns
    using that by (induction ns) (simp_all add: bullet_def ustr_def encodable_def)
  ultimately show ?thesis
    using assms by (simp add: item_writes_def encodable_record_def ustr_def encodable_def)
qed

lemma report_result:
  assumes "list_all encodable_record rs"
  shows "generate_markdown_summary True can_print rs =
     (if can_print ([0x2705] @ ustr '' AI-powered code summary generated in DevSync.md!'')
      then Inr () else Inl UnicodeEncodeError, Some (report_text rs))"
proof -
  define W where
    "W = (ustr ''# CodeMap Summary (AI-Powered) '' @ [0x1F916, 10, 10]) # concat (map item_writes rs)"
  have "list_all (list_all encodable) (concat (map item_writes rs))"
    using assms by (induction rs) (simp_all add: item_writes_encodable)
  then have "list_all (list_all encodable) W"
    by (simp add: W_def ustr_def encodable_def)
  then have "write_all W [] = (Inr (), [] @ concat W)" by (rule write_all_encodable)
  moreover have "concat W = report_text rs" unfolding W_def by (rule report_writes_text)
  ultimately have "write_all W [] = (Inr (), report_text rs)" by simp
  then show ?thesis
    unfolding generate_markdown_summary_def W_def [symmetric] by simp
qed

lemma report_written:
  "list_all encodable_record rs \<Longrightarrow>
   snd (generate_markdown_summary True can_print rs) = Some (report_text rs)"
  by (simp add: report_result)

lemma rec_x_y_encodable:
  "list_all encodable_record [rec_xy]" "list_all encodable_record [rec_x, rec_y]"
  by (simp_all add: encodable_record_def rec_xy_def rec_x_def rec_y_def ustr_def encodable_def)

text \<open>
  A record whose path holds a lone surrogate ends the report at the title: the write of
  its heading raises.
\<close>

lemma surrogate_report:
  "generate_markdown_summary True can_print [rec_sur] =
     (Inl UnicodeEncodeError, Some (ustr ''# CodeMap Summary (AI-Powered) '' @ [0x1F916, 10, 10]))"
  by (simp add: generate_markdown_summary_def item_writes_def rec_sur_def basename_def
      ustr_def encodable_def)

text \<open>
  C8, as the claim states it, fails: the report written for the single record \<open>rec_xy\<close>
  is, character for character, the report written for the two records \<open>rec_x\<close> and
  \<open>rec_y\<close>, so no reading of the report can recover the records of both.
\<close>

theorem markdown_roundtrip_counterexample:
  "generate_markdown_summary True (\<lambda>t. True) [rec_xy]
     = generate_markdown_summary True (\<lambda>t. True) [rec_x, rec_y]
   \<and> fst (generate_markdown_summary True (\<lambda>t. True) [rec_xy]) = Inr ()
   \<and> snd (generate_markdown_summary True (\<lambda>t. True) [rec_xy]) = Some (report_text [rec_xy])
   \<and> [rec_xy] \<noteq> [rec_x, rec_y]"
proof -
  have "report_text [rec_xy] = report_text [rec_x, rec_y]"
    by (simp add: report_text_def write_item_def rec_xy_def rec_x_def rec_y_def
        basename_def ustr_def)
  then show ?thesis
    by (simp add: report_result [OF rec_x_y_encodable(1)] report_result [OF rec_x_y_encodable(2)])
qed

lemma unlines_append: "unlines (a @ b) = unlines a @ unlines b"
  by (simp add: unlines_def)

lemma unlines_bullets: "concat (map bullet ns) = unlines (map bullet_line ns)"
  by (induction ns) (simp_all add: unlines_def bullet_def bullet_line_def)

lemma write_item_lines: "write_item r = unlines (item_lines r)"
  by (simp add: write_item_def item_lines_def unlines_append unlines_bullets)
     (simp add: unlines_def)

lemma generate_lines:
  "report_text rs =
     unlines ([ustr ''# CodeMap Summary (AI-Powered) '' @ [0x1F916], []] @ concat (map item_lines rs))"
proof -
  have "concat (map write_item rs) = unlines (concat (map item_lines rs))"
    by (induction rs) (simp_all add: write_item_lines unlines_append, simp add: unlines_def)
  then show ?thesis
    by (simp add: report_text_def unlines_append) (simp add: unlines_def)
qed

lemma line_split:
  "10 \<notin> set a \<Longrightarrow> 10 \<notin> set b \<Longrightarrow> a @ 10 # x = b @ 10 # y \<Longrightarrow> a = b \<and> x = y"
proof (induction a arbitrary: b)
  case Nil
  then show ?case by (cases b) auto
next
  case (Cons c a)
  then show ?case by (cases b) auto
qed

lemma unlines_inj:
  "list_all (\<lambda>l. 10 \<notin> set l) ls \<Longrightarrow> list_all (\<lambda>l. 10 \<notin> set l) ms \<Longrightarrow>
   unlines ls = unlines ms \<Longrightarrow> ls = ms"
proof (induction ls arbitrary: ms)
  case Nil
  then show ?case by (cases ms) (simp_all add: unlines_def)
next
  case (Cons l ls)
  then obtain m ms' where ms: "ms = m # ms'" by (cases ms) (simp_all add: unlines_def)
  from Cons.prems ms have "l @ 10 # unlines ls = m @ 10 # unlines ms'"
    by (simp add: unlines_def)
  with Cons.prems ms have "l = m \<and> unlines ls = unlines ms'"
    by (intro line_split) simp_all
  then show ?case using Cons ms by simp
qed

lemma item_lines_single:
  assumes "single_line r"
  shows "list_all (\<lambda>l. 10 \<notin> set l) (item_lines r)"
proof -
  have "10 \<notin> set (basename (file' r))"
    using assms basename_subset [of "file' r"] by (auto simp: single_line_def)
  moreover have "list_all (\<lambda>l. 10 \<notin> set l) (map bullet_line ns)"
    if "list_all (\<lambda>c. 10 \<notin> set c) ns" for ns
    using that by (induction ns) (simp_all add: bullet_line_def ustr_def)
  ultimately show ?thesis
    using assms by (simp add: item_lines_def single_line_def ustr_def)
qed

lemma bullet_line_nonempty: "bullet_line c \<noteq> []" "[] \<noteq> bullet_line c"
  by (simp_all add: bullet_line_def ustr_def)

lemma bullet_line_inj: "bullet_line c = bullet_line d \<longleftrightarrow> c = d"
  by (simp add: bullet_line_def)

lemma bullets_inj:
  "map bullet_line cs @ [] # R = map bullet_line cs' @ [] # R' \<Longrightarrow> cs = cs' \<and> R = R'"
proof (induction cs arbitrary: cs')
  case Nil
  then show ?case by (cases cs') (simp_all add: bullet_line_nonempty)
next
  case (Cons c cs)
  then obtain d ds where cs': "cs' = d # ds"
    by (cases cs') (simp_all add: bullet_line_nonempty)
  with Cons.prems have "c = d" and "map bullet_line cs @ [] # R = map bullet_line ds @ [] # R'"
    by (simp_all add: bullet_line_inj)
  then show ?case using Cons.IH cs' by simp
qed

lemma item_lines_blocks:
  "item_lines r =
     [ustr ''## '' @ basename (file' r), [0x1F4C2] @ ustr '' **Path:** `'' @ file' r @ ustr ''`'', []]
     @ classes_block (classes r) @ functions_block (functions' r) @ summary_block (summary r)"
  by (simp add: item_lines_def classes_block_def functions_block_def summary_block_def)

lemma summary_block_inj:
  "summary_block s @ X = summary_block s' @ X' \<Longrightarrow> s = s' \<and> X = X'"
  by (simp add: summary_block_def)

lemma functions_block_inj:
  assumes "functions_block fs @ summary_block s @ X = functions_block fs' @ summary_block s' @ X'"
  shows "fs = fs' \<and> summary_block s @ X = summary_block s' @ X'"
proof -
  obtain T where T: "summary_block s @ X = [] # T" by (simp add: summary_block_def)
  obtain T' where T': "summary_block s' @ X' = [] # T'" by (simp add: summary_block_def)
  have hd_T: "T \<noteq> [] \<and> hd T = ustr ''### AI-Powered Summary '' @ [0x1F4DC]"
    using T by (auto simp: summary_block_def)
  have hd_T': "T' \<noteq> [] \<and> hd T' = ustr ''### AI-Powered Summary '' @ [0x1F4DC]"
    using T' by (auto simp: summary_block_def)
  have ne: "ustr ''### Functions'' \<noteq> ustr ''### AI-Powered Summary '' @ [0x1F4DC]"
    by (simp add: ustr_def)
  from assms have eq: "functions_block fs @ [] # T = functions_block fs' @ [] # T'"
    by (simp only: T T')
  show ?thesis
  proof (cases "fs = []")
    case True
    show ?thesis
    proof (cases "fs' = []")
      case True
      with \<open>fs = []\<close> assms show ?thesis by (simp add: functions_block_def)
    next
      case False
      with True eq have "T = ustr ''### Functions'' # map bullet_line fs' @ [] # T'"
        by (simp add: functions_block_def)
      with hd_T ne have False by simp
      then show ?thesis ..
    qed
  next
    case False
    show ?thesis
    proof (cases "fs' = []")
      case True
      with False eq have "T' = ustr ''### Functions'' # map bullet_line fs @ [] # T"
        by (simp add: functions_block_def)
      with hd_T' ne have False by simp
      then show ?thesis ..
    next
      case fs': False
      from eq False fs' have "map bullet_line fs @ [] # T = map bullet_line fs' @ [] # T'"
        by (simp add: functions_block_def)
      then have "fs = fs' \<and> T = T'" by (rule bullets_inj)
      then show ?thesis by (simp only: T T')
    qed
  qed
qed

lemma classes_block_inj:
  assumes "classes_block cs @ [] # T = classes_block cs' @ [] # T'"
  shows "cs = cs' \<and> T = T'"
proof -
  have ne: "ustr ''### Classes'' \<noteq> []" by (simp add: ustr_def)
  show ?thesis
  proof (cases "cs = []")
    case True
    show ?thesis
    proof (cases "cs' = []")
      case True
      with \<open>cs = []\<close> assms show ?thesis by (simp add: classes_block_def)
    next
      case False
      with True assms ne have False by (simp add: classes_block_def)
      then show ?thesis ..
    qed
  next
    case False
    show ?thesis
    proof (cases "cs' = []")
      case True
      with False assms ne have False by (simp add: classes_block_def)
      then show ?thesis ..
    next
      case cs': False
      from assms False cs' have "map bullet_line cs @ [] # T = map bullet_line cs' @ [] # T'"
        by (simp add: classes_block_def)
      then show ?thesis by (rule bullets_inj)
    qed
  qed
qed

lemma rest_head:
  "\<exists>T. functions_block fs @ summary_block s @ X = [] # T"
  by (simp add: functions_block_def summary_block_def)

lemma path_line_inj: "path_line p = path_line p' \<Longrightarrow> p = p'"
  by (simp add: path_line_def)

lemma item_lines_cons:
  "item_lines r =
     (ustr ''## '' @ basename (file' r)) # path_line (file' r) # [] #
     (classes_block (classes r) @ functions_block (functions' r) @ summary_block (summary r))"
  by (simp add: item_lines_blocks path_line_def)

lemma item_lines_inj:
  assumes "item_lines r @ X = item_lines r' @ X'"
  shows "r = r' \<and> X = X'"
proof -
  let ?R = "functions_block (functions' r) @ summary_block (summary r) @ X"
  let ?R' = "functions_block (functions' r') @ summary_block (summary r') @ X'"
  from assms have pl: "path_line (file' r) = path_line (file' r')"
    and rest: "classes_block (classes r) @ ?R = classes_block (classes r') @ ?R'"
    unfolding item_lines_cons by simp_all
  from pl have p: "file' r = file' r'" by (rule path_line_inj)
  obtain T where T: "?R = [] # T" using rest_head by blast
  obtain T' where T': "?R' = [] # T'" using rest_head by blast
  from rest have "classes_block (classes r) @ [] # T = classes_block (classes r') @ [] # T'"
    by (simp only: T T')
  then have cT: "classes r = classes r' \<and> T = T'" by (rule classes_block_inj)
  then have rest2: "?R = ?R'" by (simp only: T T')
  from functions_block_inj [OF rest2] have f: "functions' r = functions' r'"
    and rest3: "summary_block (summary r) @ X = summary_block (summary r') @ X'"
    by blast+
  from summary_block_inj [OF rest3] have sx: "summary r = summary r'" "X = X'" by blast+
  have "r = r'" using p cT f sx(1) by (cases r, cases r') simp
  with sx(2) show ?thesis by simp
qed

lemma items_inj:
  "concat (map item_lines rs) = concat (map item_lines rs') \<Longrightarrow> rs = rs'"
proof (induction rs arbitrary: rs')
  case Nil
  then show ?case by (cases rs') (simp_all add: item_lines_def)
next
  case (Cons r rs)
  then obtain r' rs'' where rs': "rs' = r' # rs''" by (cases rs') (simp_all add: item_lines_def)
  with Cons.prems have "item_lines r @ concat (map item_lines rs)
      = item_lines r' @ concat (map item_lines rs'')" by simp
  then have "r = r' \<and> concat (map item_lines rs) = concat (map item_lines rs'')"
    by (rule item_lines_inj)
  then show ?case using Cons.IH rs' by simp
qed

text \<open>
  C8, amended: for sequences of records whose path, class names, function names and
  summary hold no line feed and only characters that UTF-8 can encode, the report is
  written in full, and it determines the sequence: two such sequences with the same
  report are equal, so the path (and with it the base name), the class list, the
  function list and the summary of every record can be recovered from the report.
\<close>

theorem markdown_lossless:
  assumes "list_all single_line rs" and "list_all single_line rs'"
    and "list_all encodable_record rs" and "list_all encodable_record rs'"
  shows "snd (generate_markdown_summary True can_print rs) = Some (report_text rs)
     \<and> (snd (generate_markdown_summary True can_print rs)
            = snd (generate_markdown_summary True can_print' rs')
          \<longleftrightarrow> rs = rs')"
proof -
  have nl: "list_all (\<lambda>l. 10 \<notin> set l)
      ([ustr ''# CodeMap Summary (AI-Powered) '' @ [0x1F916], []] @ concat (map item_lines xs))"
    if "list_all single_line xs" for xs
    using that by (induction xs) (simp_all add: ustr_def item_lines_single)
  have "rs = rs'" if eq: "report_text rs = report_text rs'"
  proof -
    from eq have "[ustr ''# CodeMap Summary (AI-Powered) '' @ [0x1F916], []] @ concat (map item_lines rs)
        = [ustr ''# CodeMap Summary (AI-Powered) '' @ [0x1F916], []] @ concat (map item_lines rs')"
      unfolding generate_lines by (intro unlines_inj nl assms)
    then show "rs = rs'" by (intro items_inj) simp
  qed
  then have "report_text rs = report_text rs' \<longleftrightarrow> rs = rs'" by blast
  then show ?thesis
    by (simp only: report_written [OF assms(3)] report_written [OF assms(4)] option.inject simp_thms)
qed

theorem markdown_lossless_witness:
  "list_all single_line [rec_x, rec_y] \<and> list_all single_line [rec_y]
   \<and> list_all encodable_record [rec_x, rec_y] \<and> list_all encodable_record [rec_y]
   \<and> snd (generate_markdown_summary True (\<lambda>t. True) [rec_x, rec_y])
       = Some (report_text [rec_x, rec_y])
   \<and> snd (generate_markdown_summary True (\<lambda>t. True) [rec_x, rec_y])
       \<noteq> snd (generate_markdown_summary True (\<lambda>t. False) [rec_y])"
proof -
  have h: "list_all single_line [rec_x, rec_y]" "list_all single_line [rec_y]"
    "list_all encodable_record [rec_x, rec_y]" "list_all encodable_record [rec_y]"
    by (simp_all add: single_line_def encodable_record_def rec_x_def rec_y_def ustr_def
        encodable_def)
  have "[rec_x, rec_y] \<noteq> [rec_y]" by simp
  with markdown_lossless [OF h, of "\<lambda>t. True" "\<lambda>t. False"] h show ?thesis by blast
qed

subsection \<open>The summarizer adapter\<close>

lemma split_from_words:
  "\<not> is_space a \<Longrightarrow> is_space b \<Longrightarrow>
   split_from [] (concat (replicate n [a, b])) = replicate n [a]"
  by (induction n) simp_all

lemma long_text_tokens: "length (split long_text) = 600"
  by (simp add: long_text_def split_def ustr_def split_from_words is_space_def)

lemma long_text_length: "length long_text = 1200"
  by (simp add: long_text_def ustr_def length_concat sum_list_replicate)

text \<open>
  C3: a text with fewer than 50 whitespace-separated tokens gets the fixed sentinel, and no
  request is sent to the summarization service.
\<close>

theorem generate_ai_summary_short:
  "length (split T) < 50 \<Longrightarrow> generate_ai_summary svc T = (Inr sentinel, [])"
  by (simp add: generate_ai_summary_def)

theorem generate_ai_summary_short_witness:
  "length (split (ustr ''function greet(){}'')) < 50
   \<and> generate_ai_summary (\<lambda>r. None) (ustr ''function greet(){}'') = (Inr sentinel, [])"
  using generate_ai_summary_short [of "ustr ''function greet(){}''" "\<lambda>r. None"]
  by (simp add: split_def ustr_def is_space_def)

text \<open>
  C4: for a text of at least 50 tokens and more than 1024 characters, the single request
  sent to the service carries exactly the first 1024 characters of the text, and two such
  texts with the same first 1024 characters give the same request and the same result.
\<close>

theorem generate_ai_summary_truncates:
  assumes "50 \<le> length (split T)" and "1024 < length T"
  shows "snd (generate_ai_summary svc T) =
           [\<lparr>text_in = take 1024 T, max_length = 100, min_length = 30, do_sample = False\<rparr>]
       \<and> length (take 1024 T) = 1024
       \<and> (\<forall>T'. 50 \<le> length (split T') \<and> take 1024 T' = take 1024 T
             \<longrightarrow> generate_ai_summary svc T' = generate_ai_summary svc T)"
  using assms by (auto simp: generate_ai_summary_def Let_def split: option.splits)

theorem generate_ai_summary_truncates_witness:
  "50 \<le> length (split long_text) \<and> 1024 < length long_text \<and>
   snd (generate_ai_summary (\<lambda>r. Some (take 3 (text_in r))) long_text) =
     [\<lparr>text_in = take 1024 long_text, max_length = 100, min_length = 30, do_sample = False\<rparr>]"
proof -
  have h1: "50 \<le> length (split long_text)" by (simp add: long_text_tokens)
  have h2: "1024 < length long_text" by (simp add: long_text_length)
  from generate_ai_summary_truncates [OF h1 h2, of "\<lambda>r. Some (take 3 (text_in r))"] h1 h2
  show ?thesis by blast
qed

end
